theory Spec2Isabelle
  imports Main "HOL-Library.Sublist" "HOL-Library.Multiset"
begin

section \<open>Strings and the regular expressions of the scripts\<close>

text \<open>
  A JavaScript string is a sequence of UTF-16 code units. The model covers the strings
  whose code units are below 256: one \<^typ>\<open>char\<close> is one code unit. All functions of the
  scripts that are modelled here map such strings to such strings.
\<close>

definition upperAZ :: string where
  "upperAZ = ''ABCDEFGHIJKLMNOPQRSTUVWXYZ''"

definition lowerAZ :: string where
  "lowerAZ = ''abcdefghijklmnopqrstuvwxyz''"

text \<open>
  The \<open>i\<close> flag of a regular expression without the \<open>u\<close> flag compares canonicalised
  code units; a code unit of 128 or more is never identified with an ASCII one, so an
  ASCII pattern letter matches exactly its two ASCII cases.
\<close>

definition foldCase :: "char \<Rightarrow> char" where
  "foldCase c = (case map_of (zip upperAZ lowerAZ) c of Some d \<Rightarrow> d | None \<Rightarrow> c)"

text \<open>\<open>String.prototype.toLowerCase\<close> on code units below 256.\<close>

definition toLowerChar :: "char \<Rightarrow> char" where
  "toLowerChar c =
     (if c \<in> set upperAZ then foldCase c
      else (let n = (of_char c :: nat) in
        if 192 \<le> n \<and> n \<le> 222 \<and> n \<noteq> 215 then char_of (n + 32) else c))"

definition toLowerCase :: "string \<Rightarrow> string" where
  "toLowerCase s = map toLowerChar s"

text \<open>The character class \<open>[-_]\<close>.\<close>

definition isSep :: "char \<Rightarrow> bool" where
  "isSep c = (c = CHR ''-'' \<or> c = CHR ''_'')"

text \<open>The character class \<open>\d\<close>.\<close>

definition isDigit :: "char \<Rightarrow> bool" where
  "isDigit c = (c \<in> set ''0123456789'')"

text \<open>\<open>String.prototype.endsWith\<close>, \<open>startsWith\<close> and \<open>includes\<close>.\<close>

definition endsWith :: "string \<Rightarrow> string \<Rightarrow> bool" where
  "endsWith s t = (length t \<le> length s \<and> drop (length s - length t) s = t)"

definition startsWith :: "string \<Rightarrow> string \<Rightarrow> bool" where
  "startsWith s t = (take (length t) s = t)"

fun strIncludes :: "string \<Rightarrow> string \<Rightarrow> bool" where
  "strIncludes [] t = (t = [])"
| "strIncludes (c # cs) t = (startsWith (c # cs) t \<or> strIncludes cs t)"

text \<open>
  A literal of a pattern under the \<open>i\<close> flag, matched at the start of the input:
  the rest of the input after the match, or \<open>None\<close>.
\<close>

fun litCI :: "string \<Rightarrow> string \<Rightarrow> string option" where
  "litCI [] s = Some s"
| "litCI (p # ps) [] = None"
| "litCI (p # ps) (c # cs) = (if foldCase c = foldCase p then litCI ps cs else None)"

text \<open>One character of the class \<open>[-_]\<close> at the start of the input.\<close>

fun sep1 :: "string \<Rightarrow> string option" where
  "sep1 [] = None"
| "sep1 (c # cs) = (if isSep c then Some cs else None)"

subsection \<open>The five substitutions of \<open>cleanName\<close> (rename.js)\<close>

text \<open>
  \<open>/^(?:Arch[-_]Category[-_]|Arch[-_]|Res[-_])/i\<close>: the alternatives are tried in
  this order at position 0.
\<close>

definition prefixRx :: "string \<Rightarrow> string option" where
  "prefixRx s =
     (case Option.bind (Option.bind (Option.bind (litCI ''Arch'' s) sep1) (litCI ''Category'')) sep1 of
        Some r \<Rightarrow> Some r
      | None \<Rightarrow>
         (case Option.bind (litCI ''Arch'' s) sep1 of
            Some r \<Rightarrow> Some r
          | None \<Rightarrow> Option.bind (litCI ''Res'' s) sep1))"

definition stripPrefixes :: "string \<Rightarrow> string" where
  "stripPrefixes s = (case prefixRx s of Some r \<Rightarrow> r | None \<Rightarrow> s)"

text \<open>\<open>/Amazon|AWS/gi\<close>: one pass from the left over the input, each match deleted.\<close>

definition brandRx :: "string \<Rightarrow> string option" where
  "brandRx s = (case litCI ''Amazon'' s of Some r \<Rightarrow> Some r | None \<Rightarrow> litCI ''AWS'' s)"

lemma litCI_length: "litCI p s = Some r \<Longrightarrow> length r + length p = length s"
  by (induction p s rule: litCI.induct) (auto split: if_splits)

lemma brandRx_shorter: "brandRx s = Some r \<Longrightarrow> length r < length s"
  by (auto simp: brandRx_def split: option.splits dest: litCI_length)

function stripBrands :: "string \<Rightarrow> string" where
  "stripBrands [] = []"
| "stripBrands (c # cs) =
     (case brandRx (c # cs) of
        Some r \<Rightarrow> stripBrands r
      | None \<Rightarrow> c # stripBrands cs)"
  by pat_completeness auto
termination
  by (relation "measure length") (auto dest: brandRx_shorter)

text \<open>\<open>/_(?:48|32)$/i\<close>.\<close>

definition stripSizes :: "string \<Rightarrow> string" where
  "stripSizes s =
     (if endsWith s ''_48'' \<or> endsWith s ''_32'' then take (length s - 3) s else s)"

text \<open>\<open>/[-_]{2,}/g\<close> replaced by \<open>_\<close>: every maximal run of two or more separators.\<close>

function dedupeSeps :: "string \<Rightarrow> string" where
  "dedupeSeps [] = []"
| "dedupeSeps [c] = [c]"
| "dedupeSeps (c # d # cs) =
     (if isSep c \<and> isSep d then CHR ''_'' # dedupeSeps (dropWhile isSep cs)
      else c # dedupeSeps (d # cs))"
  by pat_completeness auto
termination
  by (relation "measure length") (auto simp: less_Suc_eq_le intro: le_trans [OF length_dropWhile_le])

text \<open>\<open>/^[-_]+|[-_]+$/g\<close> deleted: the leading run and the trailing run of separators.\<close>

definition trimSeps :: "string \<Rightarrow> string" where
  "trimSeps s = rev (dropWhile isSep (rev (dropWhile isSep s)))"

definition cleanBase :: "string \<Rightarrow> string" where
  "cleanBase b = trimSeps (dedupeSeps (stripSizes (stripBrands (stripPrefixes b))))"

subsection \<open>\<open>path.extname\<close> and \<open>path.basename\<close> (Node.js, POSIX flavour)\<close>

text \<open>
  Both functions of the Node.js library scan the path from its last code unit to its
  first; the models keep the scan and its variables. \<open>None\<close> stands for the value
  \<open>-1\<close> of an index variable, and the loop function is called with the number of code
  units that are still to be read: \<open>Suc i\<close> reads the code unit at index \<open>i\<close>.
\<close>

definition slice :: "string \<Rightarrow> nat \<Rightarrow> nat \<Rightarrow> string" where
  "slice s a b = take (b - a) (drop a s)"

record extScan =
  startDot :: "nat option"
  startPart :: nat
  endPos :: "nat option"
  matchedSlash :: bool
  preDotState :: int

fun extLoop :: "string \<Rightarrow> nat \<Rightarrow> extScan \<Rightarrow> extScan" where
  "extLoop p 0 s = s"
| "extLoop p (Suc i) s =
     (if p ! i = CHR ''/'' then
        (if \<not> matchedSlash s then s\<lparr>startPart := Suc i\<rparr> else extLoop p i s)
      else
        (let s1 = (if endPos s = None
                   then s\<lparr>endPos := Some (Suc i), matchedSlash := False\<rparr> else s);
             s2 = (if p ! i = CHR ''.'' then
                     (if startDot s1 = None then s1\<lparr>startDot := Some i\<rparr>
                      else if preDotState s1 \<noteq> 1 then s1\<lparr>preDotState := 1\<rparr> else s1)
                   else if startDot s1 \<noteq> None then s1\<lparr>preDotState := - 1\<rparr> else s1)
         in extLoop p i s2))"

definition extname :: "string \<Rightarrow> string" where
  "extname p =
     (let s = extLoop p (length p)
            \<lparr>startDot = None, startPart = 0, endPos = None, matchedSlash = True, preDotState = 0\<rparr>
      in case (startDot s, endPos s) of
           (Some sd, Some e) \<Rightarrow>
             if preDotState s = 0 \<or> (preDotState s = 1 \<and> sd + 1 = e \<and> sd = startPart s + 1)
             then [] else slice p sd e
         | _ \<Rightarrow> [])"

record baseScan =
  bStart :: nat
  bEnd :: "nat option"
  bMatchedSlash :: bool
  extIdx :: "nat option"
  firstNonSlashEnd :: "nat option"

text \<open>\<open>path.basename(path)\<close>: the scan without a suffix.\<close>

fun baseLoop :: "string \<Rightarrow> nat \<Rightarrow> baseScan \<Rightarrow> baseScan" where
  "baseLoop p 0 s = s"
| "baseLoop p (Suc i) s =
     (if p ! i = CHR ''/'' then
        (if \<not> bMatchedSlash s then s\<lparr>bStart := Suc i\<rparr> else baseLoop p i s)
      else if bEnd s = None then baseLoop p i (s\<lparr>bEnd := Some (Suc i), bMatchedSlash := False\<rparr>)
      else baseLoop p i s)"

definition basename :: "string \<Rightarrow> string" where
  "basename p =
     (let s = baseLoop p (length p)
            \<lparr>bStart = 0, bEnd = None, bMatchedSlash = True, extIdx = None, firstNonSlashEnd = None\<rparr>
      in case bEnd s of None \<Rightarrow> [] | Some e \<Rightarrow> slice p (bStart s) e)"

text \<open>\<open>path.basename(path, suffix)\<close>: the scan that also matches the suffix backwards.\<close>

fun baseLoopSuffix :: "string \<Rightarrow> string \<Rightarrow> nat \<Rightarrow> baseScan \<Rightarrow> baseScan" where
  "baseLoopSuffix p suf 0 s = s"
| "baseLoopSuffix p suf (Suc i) s =
     (if p ! i = CHR ''/'' then
        (if \<not> bMatchedSlash s then s\<lparr>bStart := Suc i\<rparr> else baseLoopSuffix p suf i s)
      else
        (let s1 = (if firstNonSlashEnd s = None
                   then s\<lparr>bMatchedSlash := False, firstNonSlashEnd := Some (Suc i)\<rparr> else s);
             s2 = (case extIdx s1 of
                     None \<Rightarrow> s1
                   | Some k \<Rightarrow>
                       if p ! i = suf ! k then
                         (if k = 0 then s1\<lparr>bEnd := Some i, extIdx := None\<rparr>
                          else s1\<lparr>extIdx := Some (k - 1)\<rparr>)
                       else s1\<lparr>bEnd := firstNonSlashEnd s1, extIdx := None\<rparr>)
         in baseLoopSuffix p suf i s2))"

definition basename2 :: "string \<Rightarrow> string \<Rightarrow> string" where
  "basename2 p suf =
     (if suf \<noteq> [] \<and> length suf \<le> length p then
        (if suf = p then []
         else
           (let s = baseLoopSuffix p suf (length p)
                  \<lparr>bStart = 0, bEnd = None, bMatchedSlash = True,
                   extIdx = Some (length suf - 1), firstNonSlashEnd = None\<rparr>;
                e = (if bEnd s = Some (bStart s) then firstNonSlashEnd s
                     else if bEnd s = None then Some (length p) else bEnd s)
            in case e of None \<Rightarrow> [] | Some e' \<Rightarrow> slice p (bStart s) e'))
      else basename p)"

subsection \<open>\<open>cleanName\<close> (rename.js)\<close>

definition cleanName :: "string \<Rightarrow> bool \<Rightarrow> string" where
  "cleanName name isFile =
     (let ext = (if isFile then extname name else []);
          base0 = (if isFile then basename2 name ext else name);
          base1 = cleanBase base0;
          base = (if base1 = [] then name else base1)
      in if isFile then base @ ext else base)"

subsection \<open>\<open>cleanTitle\<close> (svg-title.js)\<close>

text \<open>\<open>s.split("/").pop()\<close>: the part of the string after its last slash.\<close>

definition lastSegment :: "string \<Rightarrow> string" where
  "lastSegment s = rev (takeWhile (\<lambda>c. c \<noteq> CHR ''/'') (rev s))"

text \<open>\<open>/^(?:Arch_|Res_)/i\<close>.\<close>

definition stripTitlePrefix :: "string \<Rightarrow> string" where
  "stripTitlePrefix s =
     (case litCI ''Arch_'' s of
        Some r \<Rightarrow> r
      | None \<Rightarrow> (case litCI ''Res_'' s of Some r \<Rightarrow> r | None \<Rightarrow> s))"

text \<open>
  \<open>/_\d+$/i\<close>: an underscore followed by one or more digits up to the end of the
  input. The only possible match starts at the underscore in front of the trailing
  run of digits.
\<close>

definition stripNumSuffix :: "string \<Rightarrow> string" where
  "stripNumSuffix s =
     (let r = dropWhile isDigit (rev s) in
      if takeWhile isDigit (rev s) \<noteq> [] \<and> r \<noteq> [] \<and> hd r = CHR ''_''
      then rev (tl r) else s)"

text \<open>\<open>/__+/g\<close> replaced by \<open>_\<close>: every maximal run of two or more underscores.\<close>

function dedupeUnderscores :: "string \<Rightarrow> string" where
  "dedupeUnderscores [] = []"
| "dedupeUnderscores [c] = [c]"
| "dedupeUnderscores (c # d # cs) =
     (if c = CHR ''_'' \<and> d = CHR ''_''
      then CHR ''_'' # dedupeUnderscores (dropWhile (\<lambda>x. x = CHR ''_'') cs)
      else c # dedupeUnderscores (d # cs))"
  by pat_completeness auto
termination
  by (relation "measure length") (auto simp: less_Suc_eq_le intro: le_trans [OF length_dropWhile_le])

definition cleanTitle :: "string \<Rightarrow> string" where
  "cleanTitle raw =
     (let s0 = (if CHR ''/'' \<in> set raw then lastSegment raw else raw);
          s1 = stripTitlePrefix s0;
          s2 = stripNumSuffix s1;
          s3 = dedupeUnderscores s2;
          s4 = trimSeps s3
      in if s4 = [] then raw else s4)"

subsection \<open>\<open>processSvg\<close> (svg-title.js)\<close>


text \<open>
  The options object that \<open>parseArgs\<close> builds in svg-title.js and in rename.js.
\<close>

record opts =
  root :: string
  dryRun :: bool

text \<open>
  \<open>String.prototype.trim\<close> removes white space and line terminators at both ends;
  below 256 these are the code units 9 to 13, 32 and 160.
\<close>

definition isWhite :: "char \<Rightarrow> bool" where
  "isWhite c = ((of_char c :: nat) \<in> {9, 10, 11, 12, 13, 32, 160})"

definition jsTrim :: "string \<Rightarrow> string" where
  "jsTrim s = rev (dropWhile isWhite (rev (dropWhile isWhite s)))"

text \<open>
  The leftmost occurrence of a literal under the \<open>i\<close> flag: the input before the
  match and the input after it.
\<close>

fun findCI :: "string \<Rightarrow> string \<Rightarrow> (string \<times> string) option" where
  "findCI pat [] = (case litCI pat [] of Some r \<Rightarrow> Some ([], r) | None \<Rightarrow> None)"
| "findCI pat (c # cs) =
     (case litCI pat (c # cs) of
        Some r \<Rightarrow> Some ([], r)
      | None \<Rightarrow> (case findCI pat cs of Some (pre, r) \<Rightarrow> Some (c # pre, r) | None \<Rightarrow> None))"

text \<open>
  \<open>data.match(/<title>([\s\S]*?)<\/title>/i)\<close>: the leftmost opening tag and, since
  the group is lazy, the first closing tag after it. An opening tag with no closing
  tag after it gives no match at all, since no later start has one either. The result
  is the input before the match, the group and the input after the match.
\<close>

definition titleMatch :: "string \<Rightarrow> (string \<times> string \<times> string) option" where
  "titleMatch data =
     (case findCI ''<title>'' data of
        None \<Rightarrow> None
      | Some (pre, rest) \<Rightarrow>
          (case findCI ''</title>'' rest of
             None \<Rightarrow> None
           | Some (inner, post) \<Rightarrow> Some (pre, inner, post)))"

text \<open>
  The replacement string of \<open>String.prototype.replace\<close> is a template: \<open>$$\<close>, \<open>$&\<close>,
  the dollar with a backquote or a quote, and \<open>$1\<close>, \<open>$01\<close> (the pattern has one
  group) are substituted; every other code unit stands for itself.
\<close>

fun getSubstitution :: "string \<Rightarrow> string \<Rightarrow> string \<Rightarrow> string \<Rightarrow> string \<Rightarrow> string" where
  "getSubstitution matched pre post cap [] = []"
| "getSubstitution matched pre post cap [c] = [c]"
| "getSubstitution matched pre post cap (c # d # r) =
     (if c \<noteq> CHR ''$'' then c # getSubstitution matched pre post cap (d # r)
      else if d = CHR ''$'' then CHR ''$'' # getSubstitution matched pre post cap r
      else if d = CHR ''&'' then matched @ getSubstitution matched pre post cap r
      else if d = CHR 0x60 then pre @ getSubstitution matched pre post cap r
      else if d = CHR 0x27 then post @ getSubstitution matched pre post cap r
      else if d = CHR ''0'' \<and> r \<noteq> [] \<and> hd r = CHR ''1''
        then cap @ getSubstitution matched pre post cap (tl r)
      else if d = CHR ''1'' then cap @ getSubstitution matched pre post cap r
      else c # getSubstitution matched pre post cap (d # r))"

text \<open>
  \<open>processSvg\<close> on the content \<open>data\<close> of a file: nothing happens, or the change is
  only logged (dry run), or the file is written with the new content.
\<close>

datatype svgOutcome = Unchanged | DryLog string string | Written string

definition processSvg :: "opts \<Rightarrow> string \<Rightarrow> svgOutcome" where
  "processSvg cfg data =
     (case titleMatch data of
        None \<Rightarrow> Unchanged
      | Some (pre, inner, post) \<Rightarrow>
          (let original = jsTrim inner;
               cleaned = cleanTitle original
           in if original = cleaned then Unchanged
              else
                (let matched = slice data (length pre) (length data - length post);
                     updated = pre @ getSubstitution matched pre post inner
                                       (''<title>'' @ cleaned @ ''</title>'') @ post
                 in if dryRun cfg then DryLog original cleaned else Written updated)))"

text \<open>The content of the file after \<open>processSvg\<close>.\<close>

definition fileAfter :: "opts \<Rightarrow> string \<Rightarrow> string" where
  "fileAfter cfg data = (case processSvg cfg data of Written u \<Rightarrow> u | _ \<Rightarrow> data)"

definition live :: opts where "live = \<lparr>root = ''aws-icons'', dryRun = False\<rparr>"

section \<open>restructure.js: slugs, the size filter and the alias resolution\<close>

text \<open>The configuration object \<open>cfg\<close> of restructure.js, as \<open>parseCli\<close> builds it.\<close>

record config =
  cfgDryRun :: bool
  cfgSize :: string
  cfgFormats :: "string list"
  cfgConcurrency :: nat
  cfgAllowUnmatched :: bool

text \<open>\<open>slug = s => s.toLowerCase().replace(/[^a-z0-9]/g, '')\<close>\<close>

definition isSlugChar :: "char \<Rightarrow> bool" where
  "isSlugChar c = (c \<in> set lowerAZ \<or> isDigit c)"

definition slug :: "string \<Rightarrow> string" where
  "slug s = filter isSlugChar (toLowerCase s)"

text \<open>\<open>String.prototype.split\<close> with a separator of one code unit.\<close>

fun splitOn :: "char \<Rightarrow> string \<Rightarrow> string list" where
  "splitOn sep [] = [[]]"
| "splitOn sep (c # cs) =
     (if c = sep then [] # splitOn sep cs
      else (case splitOn sep cs of [] \<Rightarrow> [[c]] | x # xs \<Rightarrow> (c # x) # xs))"

definition matchesSize :: "config \<Rightarrow> string \<Rightarrow> bool" where
  "matchesSize cfg fp =
     (let ext = toLowerCase (drop 1 (extname fp)) in
      if ext \<notin> set (cfgFormats cfg) then False
      else (let base = toLowerCase (basename fp) in
        if endsWith base (''_'' @ cfgSize cfg @ ''.'' @ ext) then True
        else cfgSize cfg \<in> set (splitOn (CHR ''/'') fp)))"

text \<open>
  A JavaScript \<open>Map\<close> with string keys, as the list of its entries in insertion order:
  \<open>set\<close> replaces the value of a key that is present and appends a new key.
\<close>

type_synonym jsMap = "(string \<times> string) list"

fun mapSet :: "string \<Rightarrow> string \<Rightarrow> jsMap \<Rightarrow> jsMap" where
  "mapSet k v [] = [(k, v)]"
| "mapSet k v ((k', v') # m) = (if k' = k then (k, v) # m else (k', v') # mapSet k v m)"

definition mapKeys :: "jsMap \<Rightarrow> string list" where
  "mapKeys m = map fst m"

definition mapHas :: "jsMap \<Rightarrow> string \<Rightarrow> bool" where
  "mapHas m k = (k \<in> set (mapKeys m))"

definition mapGet :: "jsMap \<Rightarrow> string \<Rightarrow> string option" where
  "mapGet m k = map_of m k"

text \<open>
  A directory entry of \<open>readdirSync(..., {withFileTypes: true})\<close>: its name and whether
  it is a directory. The two loops that fill \<open>archCats\<close> and \<open>resCats\<close> differ in the
  prefix only.
\<close>

type_synonym dirent = "string \<times> bool"

definition collectCats :: "string \<Rightarrow> dirent list \<Rightarrow> jsMap" where
  "collectCats pfx entries =
     foldl (\<lambda>m (name, isDir).
              if isDir \<and> startsWith name pfx
              then mapSet (slug (drop (length pfx) name)) name m else m)
           [] entries"

definition archCatsOf :: "dirent list \<Rightarrow> jsMap" where
  "archCatsOf entries = collectCats ''Arch_'' entries"

definition resCatsOf :: "dirent list \<Rightarrow> jsMap" where
  "resCatsOf entries = collectCats ''Res_'' entries"

text \<open>
  The objects \<open>manualAlias\<close>, \<open>autoAlias\<close> and \<open>alias\<close> are only read by key, so each is
  a partial map from keys to values.
\<close>

definition manualAlias :: "string \<rightharpoonup> string" where
  "manualAlias =
     [''appintegration'' \<mapsto> ''applicationintegration'', ''iot'' \<mapsto> ''internetofthings'']"

text \<open>\<open>[...resCats.keys()].find(x => x.includes(k) || k.includes(x))\<close>\<close>

definition findHit :: "jsMap \<Rightarrow> string \<Rightarrow> string option" where
  "findHit resCats k = find (\<lambda>x. strIncludes x k \<or> strIncludes k x) (mapKeys resCats)"

text \<open>
  One round of the loop over \<open>archCats.keys()\<close>. The test \<open>if (hit)\<close> is false for
  \<open>undefined\<close> and for the empty string.
\<close>

definition autoAliasStep :: "jsMap \<Rightarrow> (string \<rightharpoonup> string) \<Rightarrow> string \<Rightarrow> (string \<rightharpoonup> string)" where
  "autoAliasStep resCats acc k =
     (if \<not> mapHas resCats k then
        (case findHit resCats k of
           Some hit \<Rightarrow> if hit \<noteq> [] then acc(k \<mapsto> hit) else acc
         | None \<Rightarrow> acc)
      else acc)"

definition autoAlias :: "jsMap \<Rightarrow> jsMap \<Rightarrow> (string \<rightharpoonup> string)" where
  "autoAlias archCats resCats = foldl (autoAliasStep resCats) Map.empty (mapKeys archCats)"

text \<open>\<open>const alias = { ...autoAlias, ...manualAlias }\<close>\<close>

definition aliasMap :: "jsMap \<Rightarrow> jsMap \<Rightarrow> (string \<rightharpoonup> string)" where
  "aliasMap archCats resCats = autoAlias archCats resCats ++ manualAlias"

section \<open>NameNormalizer: properties of \<open>cleanName\<close>\<close>

text \<open>
  When the cleaned base is empty, the guard \<open>if (!base) base = name\<close> puts the whole
  name back, and the return statement appends the extension to it once more.
\<close>

lemma cleanName_fallback_dir:
  "cleanBase name = [] \<Longrightarrow> cleanName name False = name"
  by (simp add: cleanName_def)

lemma cleanName_fallback_file:
  "cleanBase (basename2 name (extname name)) = [] \<Longrightarrow>
   cleanName name True = name @ extname name"
  by (simp add: cleanName_def)

text \<open>
  Claim C1 (idempotence of \<open>cleanName\<close>) fails on the code: each substitution runs
  once, so a directory named \<open>Arch_Arch_x\<close> is cleaned to \<open>Arch_x\<close>, and cleaning that
  name again gives \<open>x\<close>.
\<close>

theorem cleanName_twice_differs:
  "cleanName ''Arch_Arch_x'' False = ''Arch_x'' \<and>
   cleanName (cleanName ''Arch_Arch_x'' False) False = ''x''"
  by code_simp

text \<open>
  Claim C2 (the fallback returns the original name unchanged) fails on the code for
  files: the base of \<open>AWS.svg\<close> is cleaned to the empty string, the fallback sets the
  base to the whole name \<open>AWS.svg\<close>, and the extension is appended again.
\<close>

theorem cleanName_fallback_doubles_extension:
  "cleanBase (basename2 ''AWS.svg'' (extname ''AWS.svg'')) = [] \<and>
   cleanName ''AWS.svg'' True = ''AWS.svg.svg''"
  by code_simp

section \<open>AliasResolver: properties of the alias maps\<close>

lemma autoAlias_fold:
  "foldl (autoAliasStep R) acc ks k =
     (if k \<in> set ks \<and> \<not> mapHas R k then
        (case findHit R k of
           Some hit \<Rightarrow> if hit \<noteq> [] then Some hit else acc k
         | None \<Rightarrow> acc k)
      else acc k)"
  by (induction ks arbitrary: acc) (auto simp: autoAliasStep_def split: option.splits)

text \<open>
  What the loop records for a key: the first resource slug that contains the key or is
  contained in it, unless that slug is the empty string.
\<close>

lemma autoAlias_lookup:
  "autoAlias A R k =
     (if mapHas A k \<and> \<not> mapHas R k then
        (case findHit R k of
           Some hit \<Rightarrow> if hit \<noteq> [] then Some hit else None
         | None \<Rightarrow> None)
      else None)"
  by (simp add: autoAlias_def autoAlias_fold mapHas_def split: option.splits)

text \<open>
  Claim C4 (alias precedence): a slug that has an inferred alias and an entry in the
  manual override table is mapped, by the final alias object, to the target of the
  manual entry.
\<close>

theorem alias_manual_precedence:
  "autoAlias archCats resCats k = Some a \<Longrightarrow> manualAlias k = Some t \<Longrightarrow>
   aliasMap archCats resCats k = Some t"
  by (simp add: aliasMap_def)

theorem alias_manual_precedence_witness:
  "autoAlias (archCatsOf [(''Arch_IoT'', True)]) (resCatsOf [(''Res_IoT-Things'', True)]) ''iot''
     = Some ''iotthings'' \<and>
   manualAlias ''iot'' = Some ''internetofthings'' \<and>
   aliasMap (archCatsOf [(''Arch_IoT'', True)]) (resCatsOf [(''Res_IoT-Things'', True)]) ''iot''
     = Some ''internetofthings''"
proof -
  have h1: "autoAlias (archCatsOf [(''Arch_IoT'', True)]) (resCatsOf [(''Res_IoT-Things'', True)]) ''iot''
     = Some ''iotthings''"
    by code_simp
  have h2: "manualAlias ''iot'' = Some ''internetofthings''"
    by (simp add: manualAlias_def)
  from alias_manual_precedence [OF h1 h2] h1 h2 show ?thesis by simp
qed

text \<open>
  Claim C5 (alias inference) fails on the code when the first resource slug that
  matches is the empty string (a resource directory such as \<open>Res_-\<close>): every key
  contains the empty string, so \<open>find\<close> returns it, and the test \<open>if (hit)\<close> then
  records nothing.
\<close>

theorem autoAlias_drops_empty_hit:
  "\<not> mapHas (resCatsOf [(''Res_-'', True)]) ''compute'' \<and>
   findHit (resCatsOf [(''Res_-'', True)]) ''compute'' = Some [] \<and>
   autoAlias (archCatsOf [(''Arch_Compute'', True)]) (resCatsOf [(''Res_-'', True)]) ''compute'' = None"
  by code_simp

section \<open>The size filter \<open>matchesSize\<close>\<close>

definition cfg48 :: config where
  "cfg48 = \<lparr>cfgDryRun = False, cfgSize = ''48'', cfgFormats = [''svg''],
            cfgConcurrency = 4, cfgAllowUnmatched = False\<rparr>"

lemma splitOn_nonempty: "splitOn sep s \<noteq> []"
  by (induction s) (auto split: list.splits)

lemma splitOn_no_sep: "sep \<notin> set s \<Longrightarrow> splitOn sep s = [s]"
  by (induction s) auto

lemma splitOn_append: "splitOn sep (a @ sep # b) = splitOn sep a @ splitOn sep b"
  by (induction a) (auto split: list.splits simp: splitOn_nonempty)

lemma splitOn_component:
  "sep \<notin> set d \<Longrightarrow> d \<in> set (splitOn sep (pre @ sep # d @ sep # post))"
  by (simp add: splitOn_append splitOn_no_sep)

text \<open>
  Claim C10 (the size filter is a disjunction): a path whose lowercased extension is in
  the allow-list is accepted exactly when its lowercased basename ends with
  \<open>_<size>.<ext>\<close> or one of its components is the size label; so a file below a
  directory that is named by the size label is accepted, whatever its basename.
\<close>

theorem matchesSize_iff:
  assumes "toLowerCase (drop 1 (extname fp)) \<in> set (cfgFormats cfg)"
  shows "(matchesSize cfg fp \<longleftrightarrow>
            endsWith (toLowerCase (basename fp))
              (''_'' @ cfgSize cfg @ ''.'' @ toLowerCase (drop 1 (extname fp)))
            \<or> cfgSize cfg \<in> set (splitOn (CHR ''/'') fp))
         \<and> (\<forall>pre post. CHR ''/'' \<notin> set (cfgSize cfg) \<and>
               fp = pre @ ''/'' @ cfgSize cfg @ ''/'' @ post \<longrightarrow> matchesSize cfg fp)"
proof -
  have a: "matchesSize cfg fp \<longleftrightarrow>
            endsWith (toLowerCase (basename fp))
              (''_'' @ cfgSize cfg @ ''.'' @ toLowerCase (drop 1 (extname fp)))
            \<or> cfgSize cfg \<in> set (splitOn (CHR ''/'') fp)"
    using assms by (simp add: matchesSize_def Let_def)
  have b: "matchesSize cfg fp"
    if "CHR ''/'' \<notin> set (cfgSize cfg)" "fp = pre @ ''/'' @ cfgSize cfg @ ''/'' @ post"
    for pre post
  proof -
    have "cfgSize cfg \<in> set (splitOn (CHR ''/'') fp)"
      using that splitOn_component [of "CHR ''/''" "cfgSize cfg" pre post] by simp
    then show ?thesis using a by simp
  qed
  from a b show ?thesis by blast
qed

theorem matchesSize_iff_witness:
  "toLowerCase (drop 1 (extname ''/raw/Arch_Compute/48/Arch_Amazon-EC2.SVG'')) \<in> set (cfgFormats cfg48) \<and>
   \<not> endsWith (toLowerCase (basename ''/raw/Arch_Compute/48/Arch_Amazon-EC2.SVG'')) ''_48.svg'' \<and>
   matchesSize cfg48 ''/raw/Arch_Compute/48/Arch_Amazon-EC2.SVG''"
proof -
  have h: "toLowerCase (drop 1 (extname ''/raw/Arch_Compute/48/Arch_Amazon-EC2.SVG'')) \<in> set (cfgFormats cfg48)"
    by code_simp
  have s: "CHR ''/'' \<notin> set (cfgSize cfg48)" by (simp add: cfg48_def)
  have e: "''/raw/Arch_Compute/48/Arch_Amazon-EC2.SVG'' = ''/raw/Arch_Compute'' @ ''/'' @ cfgSize cfg48 @ ''/'' @ ''Arch_Amazon-EC2.SVG''"
    by (simp add: cfg48_def)
  have n: "\<not> endsWith (toLowerCase (basename ''/raw/Arch_Compute/48/Arch_Amazon-EC2.SVG'')) ''_48.svg''"
    by code_simp
  from matchesSize_iff [OF h] s e have "matchesSize cfg48 ''/raw/Arch_Compute/48/Arch_Amazon-EC2.SVG''"
    by blast
  with h n show ?thesis by simp
qed

section \<open>TitleSync: properties of \<open>processSvg\<close>\<close>

definition ciEq :: "string \<Rightarrow> string \<Rightarrow> bool" where
  "ciEq p t = (map foldCase t = map foldCase p)"

lemma litCI_Some_raw:
  "litCI p s = Some r \<longleftrightarrow> (\<exists>t. s = t @ r \<and> map foldCase t = map foldCase p)"
proof (induction p s rule: litCI.induct)
  case (1 s)
  then show ?case by simp
next
  case (2 p ps)
  then show ?case by auto
next
  case (3 p ps c cs)
  show ?case
  proof
    assume "litCI (p # ps) (c # cs) = Some r"
    with 3 obtain t where "foldCase c = foldCase p" "cs = t @ r" "map foldCase t = map foldCase ps"
      by (auto split: if_splits)
    then have "c # cs = (c # t) @ r \<and> map foldCase (c # t) = map foldCase (p # ps)" by simp
    then show "\<exists>t. c # cs = t @ r \<and> map foldCase t = map foldCase (p # ps)" by blast
  next
    assume "\<exists>t. c # cs = t @ r \<and> map foldCase t = map foldCase (p # ps)"
    then obtain t where t: "c # cs = t @ r" "map foldCase t = map foldCase (p # ps)" by blast
    then obtain t' where "t = c # t'" by (cases t) auto
    with t 3 show "litCI (p # ps) (c # cs) = Some r" by auto
  qed
qed

lemma litCI_Some_iff:
  "litCI p s = Some r \<longleftrightarrow> (\<exists>t. s = t @ r \<and> ciEq p t)"
  by (simp add: litCI_Some_raw ciEq_def)

lemma ciEq_length: "ciEq p t \<Longrightarrow> length t = length p"
  unfolding ciEq_def by (metis length_map)

lemma findCI_Some:
  "findCI p s = Some (pre, r) \<Longrightarrow> \<exists>t. s = pre @ t @ r \<and> ciEq p t"
proof (induction s arbitrary: pre)
  case Nil
  then show ?case by (auto split: option.splits simp: litCI_Some_iff)
next
  case (Cons c cs)
  show ?case
  proof (cases "litCI p (c # cs)")
    case (Some r')
    with Cons.prems show ?thesis by (auto simp: litCI_Some_iff)
  next
    case None
    with Cons.prems obtain pre' where "findCI p cs = Some (pre', r)" "pre = c # pre'"
      by (auto split: option.splits)
    with Cons.IH [of pre'] show ?thesis by auto
  qed
qed

lemma findCI_None_iff:
  "findCI p s = None \<longleftrightarrow> (\<forall>pre t r. s = pre @ t @ r \<longrightarrow> \<not> ciEq p t)"
proof (induction s)
  case Nil
  have "litCI p [] = (if p = [] then Some [] else None)" by (cases p) auto
  then show ?case by (auto simp: ciEq_def)
next
  case (Cons c cs)
  show ?case
  proof
    assume n: "findCI p (c # cs) = None"
    then have a: "litCI p (c # cs) = None" and b: "findCI p cs = None"
      by (auto split: option.splits)
    show "\<forall>pre t r. c # cs = pre @ t @ r \<longrightarrow> \<not> ciEq p t"
    proof (intro allI impI)
      fix pre t r assume e: "c # cs = pre @ t @ r"
      show "\<not> ciEq p t"
      proof (cases pre)
        case Nil
        with e a show ?thesis using litCI_Some_iff [of p "c # cs" r] by auto
      next
        case (Cons x pre')
        with e have "cs = pre' @ t @ r" by simp
        with b Cons.IH show ?thesis by blast
      qed
    qed
  next
    assume h: "\<forall>pre t r. c # cs = pre @ t @ r \<longrightarrow> \<not> ciEq p t"
    have a: "litCI p (c # cs) = None"
    proof (rule ccontr)
      assume "litCI p (c # cs) \<noteq> None"
      then obtain r where "litCI p (c # cs) = Some r" by auto
      then obtain t where "c # cs = [] @ t @ r" "ciEq p t"
        by (auto simp: litCI_Some_iff)
      with h show False by blast
    qed
    have "\<forall>pre t r. cs = pre @ t @ r \<longrightarrow> \<not> ciEq p t"
    proof (intro allI impI)
      fix pre t r assume "cs = pre @ t @ r"
      then have "c # cs = (c # pre) @ t @ r" by simp
      with h show "\<not> ciEq p t" by blast
    qed
    with Cons.IH have "findCI p cs = None" by simp
    with a show "findCI p (c # cs) = None" by simp
  qed
qed

text \<open>
  Claim C7 (TitleSync rewrites conditionally): in a live run the file is written
  exactly when the title pattern matches and the trimmed content of the title differs
  from its cleaned form; a file without a title element is left as it is, with no
  error, and so is a file whose trimmed title is already clean.
\<close>

theorem processSvg_rewrites_iff:
  "(\<not> dryRun cfg \<longrightarrow>
      ((\<exists>u. processSvg cfg data = Written u) \<longleftrightarrow>
       (\<exists>pre inner post. titleMatch data = Some (pre, inner, post) \<and>
          jsTrim inner \<noteq> cleanTitle (jsTrim inner))))
   \<and> (titleMatch data = None \<longrightarrow>
        processSvg cfg data = Unchanged \<and> fileAfter cfg data = data)
   \<and> (\<forall>pre inner post. titleMatch data = Some (pre, inner, post) \<and>
          jsTrim inner = cleanTitle (jsTrim inner) \<longrightarrow>
        processSvg cfg data = Unchanged \<and> fileAfter cfg data = data)"
  by (auto simp: processSvg_def fileAfter_def Let_def split: option.splits)

theorem processSvg_rewrites_iff_witness:
  "\<not> dryRun live \<and>
   titleMatch ''<svg><title>Amazon-EC2_48</title></svg>'' = Some (''<svg>'', ''Amazon-EC2_48'', ''</svg>'') \<and>
   jsTrim ''Amazon-EC2_48'' \<noteq> cleanTitle (jsTrim ''Amazon-EC2_48'') \<and>
   processSvg live ''<svg><title>Amazon-EC2_48</title></svg>''
     = Written ''<svg><title>Amazon-EC2</title></svg>'' \<and>
   titleMatch ''<svg><path/></svg>'' = None \<and>
   fileAfter live ''<svg><path/></svg>'' = ''<svg><path/></svg>'' \<and>
   titleMatch ''<svg><title>Amazon-EC2</title></svg>'' = Some (''<svg>'', ''Amazon-EC2'', ''</svg>'') \<and>
   fileAfter live ''<svg><title>Amazon-EC2</title></svg>'' = ''<svg><title>Amazon-EC2</title></svg>''"
proof -
  have l: "\<not> dryRun live" by (simp add: live_def)
  have m1: "titleMatch ''<svg><title>Amazon-EC2_48</title></svg>'' = Some (''<svg>'', ''Amazon-EC2_48'', ''</svg>'')"
    by code_simp
  have d1: "jsTrim ''Amazon-EC2_48'' \<noteq> cleanTitle (jsTrim ''Amazon-EC2_48'')"
    by code_simp
  have w1: "processSvg live ''<svg><title>Amazon-EC2_48</title></svg>''
     = Written ''<svg><title>Amazon-EC2</title></svg>''"
    by code_simp
  have m2: "titleMatch ''<svg><path/></svg>'' = None" by code_simp
  have m3: "titleMatch ''<svg><title>Amazon-EC2</title></svg>'' = Some (''<svg>'', ''Amazon-EC2'', ''</svg>'')"
    by code_simp
  have d3: "jsTrim ''Amazon-EC2'' = cleanTitle (jsTrim ''Amazon-EC2'')" by code_simp
  from processSvg_rewrites_iff [of live "''<svg><path/></svg>''"] m2
  have u2: "fileAfter live ''<svg><path/></svg>'' = ''<svg><path/></svg>''" by blast
  from processSvg_rewrites_iff [of live "''<svg><title>Amazon-EC2</title></svg>''"] m3 d3
  have u3: "fileAfter live ''<svg><title>Amazon-EC2</title></svg>'' = ''<svg><title>Amazon-EC2</title></svg>''"
    by blast
  from l m1 d1 w1 m2 u2 m3 u3 show ?thesis by blast
qed


lemma findCI_leftmost:
  "findCI p s = Some (pre, r) \<Longrightarrow> s = pre' @ t @ r' \<Longrightarrow> ciEq p t \<Longrightarrow>
   length pre \<le> length pre'"
proof (induction s arbitrary: pre pre')
  case Nil
  then show ?case by (auto split: option.splits)
next
  case (Cons c cs)
  show ?case
  proof (cases "litCI p (c # cs)")
    case (Some r0)
    with Cons.prems(1) have "pre = []" by simp
    then show ?thesis by simp
  next
    case None
    with Cons.prems(1) obtain q where q: "findCI p cs = Some (q, r)" "pre = c # q"
      by (auto split: option.splits)
    have "pre' \<noteq> []"
    proof
      assume "pre' = []"
      with Cons.prems(2,3) have "litCI p (c # cs) = Some r'"
        unfolding litCI_Some_iff by auto
      with None show False by simp
    qed
    then obtain x pre'' where p: "pre' = x # pre''" by (cases pre') auto
    with Cons.prems(2) have "cs = pre'' @ t @ r'" by simp
    from Cons.IH [OF q(1) this Cons.prems(3)] q p show ?thesis by simp
  qed
qed

definition isOpenTag :: "string \<Rightarrow> bool" where
  "isOpenTag t = ciEq ''<title>'' t"

definition isCloseTag :: "string \<Rightarrow> bool" where
  "isCloseTag t = ciEq ''</title>'' t"

text \<open>
  The match of the title pattern against the language of the pattern: a match splits
  the content around an opening and a closing tag, no match means that the content has
  no such split, and no opening tag starts before the one that is matched.
\<close>

lemma titleMatch_Some:
  assumes "titleMatch data = Some (pre, inner, post)"
  shows "\<exists>ot ct. data = pre @ ot @ inner @ ct @ post \<and> isOpenTag ot \<and> isCloseTag ct"
proof -
  from assms obtain rest where a: "findCI ''<title>'' data = Some (pre, rest)"
      and b: "findCI ''</title>'' rest = Some (inner, post)"
    by (auto simp: titleMatch_def split: option.splits)
  from findCI_Some [OF a] obtain ot where ot: "data = pre @ ot @ rest" "ciEq ''<title>'' ot"
    by blast
  from findCI_Some [OF b] obtain ct where ct: "rest = inner @ ct @ post" "ciEq ''</title>'' ct"
    by blast
  from ot(1) ct(1) have "data = pre @ ot @ inner @ ct @ post" by simp
  with ot(2) ct(2) show ?thesis unfolding isOpenTag_def isCloseTag_def by blast
qed

lemma titleMatch_None_iff:
  "titleMatch data = None \<longleftrightarrow>
   \<not> (\<exists>pre ot inner ct post. data = pre @ ot @ inner @ ct @ post \<and> isOpenTag ot \<and> isCloseTag ct)"
proof
  assume n: "titleMatch data = None"
  show "\<not> (\<exists>pre ot inner ct post. data = pre @ ot @ inner @ ct @ post \<and> isOpenTag ot \<and> isCloseTag ct)"
  proof
    assume "\<exists>pre ot inner ct post. data = pre @ ot @ inner @ ct @ post \<and> isOpenTag ot \<and> isCloseTag ct"
    then obtain pre' ot inner' ct post' where d: "data = pre' @ ot @ inner' @ ct @ post'"
        and o: "ciEq ''<title>'' ot" and c: "ciEq ''</title>'' ct"
      unfolding isOpenTag_def isCloseTag_def by blast
    from d o have "findCI ''<title>'' data \<noteq> None"
      using findCI_None_iff [of "''<title>''" data] by blast
    then obtain pre rest where a: "findCI ''<title>'' data = Some (pre, rest)" by auto
    with n have b: "findCI ''</title>'' rest = None"
      by (auto simp: titleMatch_def split: option.splits)
    from findCI_Some [OF a] obtain t where t: "data = pre @ t @ rest" "ciEq ''<title>'' t"
      by blast
    from findCI_leftmost [OF a d o] have le: "length pre \<le> length pre'" .
    from t(2) o have lt: "length t = length ot" by (simp add: ciEq_length)
    have "rest = drop (length pre + length t) data" using t(1) by simp
    also have "\<dots> = drop (length pre + length ot) (pre' @ ot @ inner' @ ct @ post')"
      using d lt by simp
    also have "\<dots> = drop (length pre + length ot) (pre' @ ot) @ inner' @ ct @ post'"
      using le by simp
    finally have "rest = (drop (length pre + length ot) (pre' @ ot) @ inner') @ ct @ post'" by simp
    with b c show False using findCI_None_iff [of "''</title>''" rest] by blast
  qed
next
  assume h: "\<not> (\<exists>pre ot inner ct post. data = pre @ ot @ inner @ ct @ post \<and> isOpenTag ot \<and> isCloseTag ct)"
  show "titleMatch data = None"
  proof (rule ccontr)
    assume "titleMatch data \<noteq> None"
    then obtain pre inner post where "titleMatch data = Some (pre, inner, post)" by auto
    from titleMatch_Some [OF this] h show False by blast
  qed
qed

lemma titleMatch_first:
  assumes "titleMatch data = Some (pre, inner, post)"
      and "data = pre' @ ot @ rest'" and "isOpenTag ot"
  shows "length pre \<le> length pre'"
proof -
  from assms(1) obtain rest where a: "findCI ''<title>'' data = Some (pre, rest)"
    by (auto simp: titleMatch_def split: option.splits)
  from findCI_leftmost [OF a assms(2)] assms(3) show ?thesis by (simp add: isOpenTag_def)
qed

section \<open>Brand tokens under the filename rule and the title rule\<close>

text \<open>\<open>/Amazon|AWS/i.test(s)\<close>: the string contains a brand token, in any case.\<close>

fun hasBrand :: "string \<Rightarrow> bool" where
  "hasBrand [] = False"
| "hasBrand (c # cs) = (brandRx (c # cs) \<noteq> None \<or> hasBrand cs)"

text \<open>The letters of the brand tokens.\<close>

definition brandChar :: "char \<Rightarrow> bool" where
  "brandChar c = (foldCase c \<in> set ''amazonws'')"

text \<open>
  A condition on the input of the brand deletion, read along its scan from the left
  (\<open>prev\<close>: the last character that was kept is a letter of a brand token). It holds
  when no deleted token, and no unbroken chain of deleted tokens, stands directly
  between two kept letters of the brand tokens: only there can the deletion join the
  pieces of a new token.
\<close>

function noBrandGlue :: "bool \<Rightarrow> string \<Rightarrow> bool" where
  "noBrandGlue prev [] = True"
| "noBrandGlue prev (c # cs) =
     (case brandRx (c # cs) of
        Some r \<Rightarrow>
          (case r of
             [] \<Rightarrow> True
           | x # xs \<Rightarrow> \<not> prev \<or> brandRx r \<noteq> None \<or> \<not> brandChar x) \<and> noBrandGlue prev r
      | None \<Rightarrow> noBrandGlue (brandChar c) cs)"
  by pat_completeness auto
termination
  by (relation "measure (\<lambda>(p, s). length s)") (auto dest: brandRx_shorter)

lemma foldCase_lit:
  "foldCase CHR ''A'' = CHR ''a''" "foldCase CHR ''W'' = CHR ''w''" "foldCase CHR ''S'' = CHR ''s''"
  "foldCase CHR ''R'' = CHR ''r''" "foldCase CHR ''C'' = CHR ''c''"
  "foldCase CHR ''a'' = CHR ''a''" "foldCase CHR ''m'' = CHR ''m''" "foldCase CHR ''z'' = CHR ''z''"
  "foldCase CHR ''o'' = CHR ''o''" "foldCase CHR ''n'' = CHR ''n''" "foldCase CHR ''r'' = CHR ''r''"
  "foldCase CHR ''c'' = CHR ''c''" "foldCase CHR ''h'' = CHR ''h''" "foldCase CHR ''e'' = CHR ''e''"
  "foldCase CHR ''s'' = CHR ''s''" "foldCase CHR ''t'' = CHR ''t''" "foldCase CHR ''g'' = CHR ''g''"
  "foldCase CHR ''y'' = CHR ''y''" "foldCase CHR ''_'' = CHR ''_''" "foldCase CHR ''-'' = CHR ''-''"
  "foldCase CHR ''.'' = CHR ''.''" "foldCase CHR ''/'' = CHR ''/''"
  "foldCase CHR ''0'' = CHR ''0''" "foldCase CHR ''1'' = CHR ''1''" "foldCase CHR ''2'' = CHR ''2''"
  "foldCase CHR ''3'' = CHR ''3''" "foldCase CHR ''4'' = CHR ''4''" "foldCase CHR ''5'' = CHR ''5''"
  "foldCase CHR ''6'' = CHR ''6''" "foldCase CHR ''7'' = CHR ''7''" "foldCase CHR ''8'' = CHR ''8''"
  "foldCase CHR ''9'' = CHR ''9''"
  by (simp_all add: foldCase_def upperAZ_def lowerAZ_def)

lemma litCI_stop:
  "\<forall>q \<in> set p. foldCase q \<noteq> foldCase c \<Longrightarrow> p \<noteq> [] \<Longrightarrow>
   (litCI p (a @ c # b) = None) = (litCI p a = None)"
proof (induction p a rule: litCI.induct)
  case (1 s)
  then show ?case by simp
next
  case (2 p ps)
  then show ?case by auto
next
  case (3 p ps x xs)
  then show ?case by (cases ps) auto
qed

lemma brandRx_None: "(brandRx s = None) = (litCI ''Amazon'' s = None \<and> litCI ''AWS'' s = None)"
  by (simp add: brandRx_def split: option.splits)

lemma brandRx_stop:
  assumes "\<not> brandChar c"
  shows "(brandRx (a @ c # b) = None) = (brandRx a = None)"
proof -
  have 1: "\<forall>q \<in> set ''Amazon''. foldCase q \<noteq> foldCase c"
    using assms by (auto simp: brandChar_def foldCase_lit)
  have 2: "\<forall>q \<in> set ''AWS''. foldCase q \<noteq> foldCase c"
    using assms by (auto simp: brandChar_def foldCase_lit)
  show ?thesis
    unfolding brandRx_None using litCI_stop [OF 1] litCI_stop [OF 2] by simp
qed

lemma brandRx_head: "\<not> brandChar c \<Longrightarrow> brandRx (c # b) = None"
  using brandRx_stop [of c "[]" b] by (simp add: brandRx_None)

lemma hasBrand_skip: "\<not> brandChar c \<Longrightarrow> hasBrand (c # b) = hasBrand b"
  by (simp add: brandRx_head)

lemma hasBrand_stop:
  "\<not> brandChar c \<Longrightarrow> hasBrand (a @ c # b) = (hasBrand a \<or> hasBrand b)"
proof (induction a)
  case Nil
  then show ?case by (simp add: brandRx_head)
next
  case (Cons x a)
  have "(brandRx ((x # a) @ c # b) = None) = (brandRx (x # a) = None)"
    using Cons.prems by (rule brandRx_stop)
  with Cons show ?case by auto
qed

lemma hasBrand_brandChar: "hasBrand s \<Longrightarrow> \<exists>c \<in> set s. brandChar c"
proof (induction s)
  case Nil
  then show ?case by simp
next
  case (Cons c s)
  then show ?case using brandRx_head [of c s] by auto
qed

lemma hasBrand_tail: "\<forall>c \<in> set b. \<not> brandChar c \<Longrightarrow> hasBrand (a @ b) = hasBrand a"
proof (cases b)
  case Nil
  then show ?thesis by simp
next
  case (Cons x b')
  assume h: "\<forall>c \<in> set b. \<not> brandChar c"
  with Cons have "\<not> hasBrand b'" using hasBrand_brandChar [of b'] by auto
  with h Cons show ?thesis by (simp add: hasBrand_stop)
qed

lemma hasBrand_dropWhile:
  "(\<And>c. P c \<Longrightarrow> \<not> brandChar c) \<Longrightarrow> hasBrand (dropWhile P s) = hasBrand s"
  by (induction s) (auto simp: brandRx_head)

lemma hasBrand_dropWhile_end:
  assumes "\<And>c. P c \<Longrightarrow> \<not> brandChar c"
  shows "hasBrand (rev (dropWhile P (rev s))) = hasBrand s"
proof -
  define a where "a = rev (dropWhile P (rev s))"
  define b where "b = rev (takeWhile P (rev s))"
  have "rev s = rev b @ rev a"
    unfolding a_def b_def by simp
  then have e: "s = a @ b"
    by (metis rev_append rev_rev_ident)
  have "\<forall>c \<in> set b. \<not> brandChar c"
    unfolding b_def using assms by (auto dest: set_takeWhileD)
  then have "hasBrand (a @ b) = hasBrand a" by (rule hasBrand_tail)
  with e have "hasBrand a = hasBrand s" by simp
  then show ?thesis unfolding a_def .
qed

lemma litCI_append:
  assumes "litCI p a = Some r"
  shows "litCI p (a @ b) = Some (r @ b)"
proof -
  from assms obtain t where "a = t @ r" "ciEq p t"
    unfolding litCI_Some_iff by blast
  then have "a @ b = t @ (r @ b) \<and> ciEq p t" by simp
  then show ?thesis unfolding litCI_Some_iff by blast
qed

lemma brandRx_append:
  assumes "brandRx a \<noteq> None"
  shows "brandRx (a @ b) \<noteq> None"
proof (cases "litCI ''Amazon'' a")
  case (Some r)
  then have "litCI ''Amazon'' (a @ b) = Some (r @ b)" by (rule litCI_append)
  then show ?thesis by (simp add: brandRx_def)
next
  case None
  with assms obtain r where "litCI ''AWS'' a = Some r" by (auto simp: brandRx_def)
  then have "litCI ''AWS'' (a @ b) = Some (r @ b)" by (rule litCI_append)
  then show ?thesis by (simp add: brandRx_def split: option.splits)
qed

lemma hasBrand_appendI1: "hasBrand a \<Longrightarrow> hasBrand (a @ b)"
proof (induction a)
  case Nil
  then show ?case by simp
next
  case (Cons x a)
  from Cons.prems have "brandRx (x # a) \<noteq> None \<or> hasBrand a" by simp
  then show ?case
  proof
    assume "brandRx (x # a) \<noteq> None"
    then have "brandRx ((x # a) @ b) \<noteq> None" by (rule brandRx_append)
    then show ?thesis by simp
  next
    assume "hasBrand a"
    then have "hasBrand (a @ b)" by (rule Cons.IH)
    then show ?thesis by simp
  qed
qed

lemma hasBrand_appendI2: "hasBrand b \<Longrightarrow> hasBrand (a @ b)"
  by (induction a) auto

lemma isSep_not_brand: "isSep c \<Longrightarrow> \<not> brandChar c"
  by (auto simp: isSep_def brandChar_def foldCase_lit)

lemma isDigit_not_brand: "isDigit c \<Longrightarrow> \<not> brandChar c"
  by (auto simp: isDigit_def brandChar_def foldCase_lit)

lemma hasBrand_trimSeps: "hasBrand (trimSeps s) = hasBrand s"
  unfolding trimSeps_def
  by (simp add: hasBrand_dropWhile_end [of isSep] hasBrand_dropWhile [of isSep] isSep_not_brand)


lemma isSep_fold: "isSep c \<Longrightarrow> foldCase c = c"
  by (auto simp: isSep_def foldCase_lit)

lemma litCI_sep_head:
  "isSep c \<Longrightarrow> \<forall>q \<in> set p. \<not> isSep (foldCase q) \<Longrightarrow> p \<noteq> [] \<Longrightarrow> litCI p (c # s) = None"
  by (cases p) (auto simp: isSep_fold)

lemma litCI_dedupeSeps:
  "\<forall>q \<in> set p. \<not> isSep (foldCase q) \<Longrightarrow>
   (litCI p (dedupeSeps s) = None) = (litCI p s = None)"
proof (induction s arbitrary: p rule: dedupeSeps.induct)
  case 1
  then show ?case by simp
next
  case (2 c)
  then show ?case by simp
next
  case (3 c d cs)
  show ?case
  proof (cases p)
    case Nil
    then show ?thesis by simp
  next
    case (Cons q ps)
    show ?thesis
    proof (cases "isSep c \<and> isSep d")
      case True
      have u: "isSep CHR ''_''" by (simp add: isSep_def)
      from True have "dedupeSeps (c # d # cs) = CHR ''_'' # dedupeSeps (dropWhile isSep cs)" by simp
      moreover have "litCI p (CHR ''_'' # dedupeSeps (dropWhile isSep cs)) = None"
        using litCI_sep_head [OF u "3.prems"] Cons by simp
      moreover have "litCI p (c # d # cs) = None"
        using litCI_sep_head [of c p] True "3.prems" Cons by simp
      ultimately show ?thesis by simp
    next
      case False
      then have e: "dedupeSeps (c # d # cs) = c # dedupeSeps (d # cs)" by auto
      have "\<forall>q \<in> set ps. \<not> isSep (foldCase q)" using "3.prems" Cons by simp
      from "3.IH"(2) [OF False this] show ?thesis unfolding e Cons by simp
    qed
  qed
qed

lemma brand_pats_no_sep:
  "\<forall>q \<in> set ''Amazon''. \<not> isSep (foldCase q)" "\<forall>q \<in> set ''AWS''. \<not> isSep (foldCase q)"
  by (simp_all add: isSep_def foldCase_lit)

lemma brandRx_dedupeSeps: "(brandRx (dedupeSeps s) = None) = (brandRx s = None)"
  unfolding brandRx_None by (simp add: litCI_dedupeSeps brand_pats_no_sep)

lemma hasBrand_dedupeSeps: "hasBrand (dedupeSeps s) = hasBrand s"
proof (induction s rule: dedupeSeps.induct)
  case 1
  then show ?case by simp
next
  case (2 c)
  then show ?case by simp
next
  case (3 c d cs)
  show ?case
  proof (cases "isSep c \<and> isSep d")
    case True
    have u: "\<not> brandChar CHR ''_''" by (simp add: isSep_not_brand isSep_def)
    from True have "dedupeSeps (c # d # cs) = CHR ''_'' # dedupeSeps (dropWhile isSep cs)" by simp
    then have "hasBrand (dedupeSeps (c # d # cs)) = hasBrand (dedupeSeps (dropWhile isSep cs))"
      using hasBrand_skip [OF u] by (simp del: hasBrand.simps dedupeSeps.simps)
    also have "\<dots> = hasBrand (dropWhile isSep cs)" using "3.IH"(1) True by simp
    also have "\<dots> = hasBrand cs" by (rule hasBrand_dropWhile) (rule isSep_not_brand)
    also have "\<dots> = hasBrand (d # cs)"
      using True by (intro hasBrand_skip [symmetric] isSep_not_brand) simp
    also have "\<dots> = hasBrand (c # d # cs)"
      using True by (intro hasBrand_skip [symmetric] isSep_not_brand) simp
    finally show ?thesis .
  next
    case False
    then have e: "dedupeSeps (c # d # cs) = c # dedupeSeps (d # cs)" by auto
    have "(brandRx (c # dedupeSeps (d # cs)) = None) = (brandRx (c # d # cs) = None)"
      using brandRx_dedupeSeps [of "c # d # cs"] unfolding e .
    moreover have "hasBrand (dedupeSeps (d # cs)) = hasBrand (d # cs)" using "3.IH"(2) False by simp
    ultimately show ?thesis unfolding e hasBrand.simps by simp
  qed
qed


lemma litCI_dedupeUnderscores:
  "\<forall>q \<in> set p. \<not> isSep (foldCase q) \<Longrightarrow>
   (litCI p (dedupeUnderscores s) = None) = (litCI p s = None)"
proof (induction s arbitrary: p rule: dedupeUnderscores.induct)
  case 1
  then show ?case by simp
next
  case (2 c)
  then show ?case by simp
next
  case (3 c d cs)
  show ?case
  proof (cases p)
    case Nil
    then show ?thesis by simp
  next
    case (Cons q ps)
    show ?thesis
    proof (cases "c = CHR ''_'' \<and> d = CHR ''_''")
      case True
      have u: "isSep CHR ''_''" by (simp add: isSep_def)
      from True have "dedupeUnderscores (c # d # cs)
          = CHR ''_'' # dedupeUnderscores (dropWhile (\<lambda>x. x = CHR ''_'') cs)" by simp
      moreover have "litCI p (CHR ''_'' # dedupeUnderscores (dropWhile (\<lambda>x. x = CHR ''_'') cs)) = None"
        using litCI_sep_head [OF u "3.prems"] Cons by simp
      moreover have "litCI p (c # d # cs) = None"
        using litCI_sep_head [OF u "3.prems"] True Cons by simp
      ultimately show ?thesis by simp
    next
      case False
      then have e: "dedupeUnderscores (c # d # cs) = c # dedupeUnderscores (d # cs)" by auto
      have "\<forall>q \<in> set ps. \<not> isSep (foldCase q)" using "3.prems" Cons by simp
      from "3.IH"(2) [OF False this] show ?thesis unfolding e Cons by simp
    qed
  qed
qed

lemma brandRx_dedupeUnderscores: "(brandRx (dedupeUnderscores s) = None) = (brandRx s = None)"
  unfolding brandRx_None by (simp add: litCI_dedupeUnderscores brand_pats_no_sep)

lemma hasBrand_dedupeUnderscores: "hasBrand (dedupeUnderscores s) = hasBrand s"
proof (induction s rule: dedupeUnderscores.induct)
  case 1
  then show ?case by simp
next
  case (2 c)
  then show ?case by simp
next
  case (3 c d cs)
  have u: "\<not> brandChar CHR ''_''" by (simp add: isSep_not_brand isSep_def)
  show ?case
  proof (cases "c = CHR ''_'' \<and> d = CHR ''_''")
    case True
    then have "dedupeUnderscores (c # d # cs)
        = CHR ''_'' # dedupeUnderscores (dropWhile (\<lambda>x. x = CHR ''_'') cs)" by simp
    then have "hasBrand (dedupeUnderscores (c # d # cs))
        = hasBrand (dedupeUnderscores (dropWhile (\<lambda>x. x = CHR ''_'') cs))"
      using hasBrand_skip [OF u] by (simp del: hasBrand.simps dedupeUnderscores.simps)
    also have "\<dots> = hasBrand (dropWhile (\<lambda>x. x = CHR ''_'') cs)" using "3.IH"(1) True by simp
    also have "\<dots> = hasBrand cs" by (rule hasBrand_dropWhile) (simp add: u)
    also have "\<dots> = hasBrand (d # cs)"
      using True u by (simp add: hasBrand_skip del: hasBrand.simps)
    also have "\<dots> = hasBrand (c # d # cs)"
      using True u by (simp add: hasBrand_skip del: hasBrand.simps)
    finally show ?thesis .
  next
    case False
    then have e: "dedupeUnderscores (c # d # cs) = c # dedupeUnderscores (d # cs)" by auto
    have "(brandRx (c # dedupeUnderscores (d # cs)) = None) = (brandRx (c # d # cs) = None)"
      using brandRx_dedupeUnderscores [of "c # d # cs"] unfolding e .
    moreover have "hasBrand (dedupeUnderscores (d # cs)) = hasBrand (d # cs)"
      using "3.IH"(2) False by simp
    ultimately show ?thesis unfolding e hasBrand.simps by simp
  qed
qed

lemma hasBrand_stripNumSuffix: "hasBrand (stripNumSuffix s) = hasBrand s"
proof (cases "takeWhile isDigit (rev s) \<noteq> [] \<and> dropWhile isDigit (rev s) \<noteq> []
               \<and> hd (dropWhile isDigit (rev s)) = CHR ''_''")
  case False
  then show ?thesis by (auto simp: stripNumSuffix_def Let_def)
next
  case True
  define r where "r = dropWhile isDigit (rev s)"
  define ds where "ds = takeWhile isDigit (rev s)"
  from True have r: "r = CHR ''_'' # tl r" unfolding r_def by (cases "dropWhile isDigit (rev s)") auto
  have "rev s = ds @ r" unfolding r_def ds_def by simp
  then have "s = rev r @ rev ds" by (metis rev_append rev_rev_ident)
  with r have e: "s = rev (tl r) @ CHR ''_'' # rev ds" by (metis append.assoc append_Cons append_Nil rev.simps(2))
  have u: "\<not> brandChar CHR ''_''" by (simp add: isSep_not_brand isSep_def)
  have "\<forall>c \<in> set ds. isDigit c"
    unfolding ds_def by (auto dest: set_takeWhileD)
  then have "\<forall>c \<in> set (rev ds). \<not> brandChar c"
    using isDigit_not_brand by auto
  then have "\<not> hasBrand (rev ds)" using hasBrand_brandChar by blast
  then have "hasBrand (rev (tl r) @ CHR ''_'' # rev ds) = hasBrand (rev (tl r))"
    by (simp add: hasBrand_stop [OF u])
  with e have "hasBrand s = hasBrand (rev (tl r))" by simp
  moreover from True have "stripNumSuffix s = rev (tl r)"
    by (simp add: stripNumSuffix_def Let_def r_def)
  ultimately show ?thesis by simp
qed

lemma litCI_Cons:
  "litCI (p # ps) s = Some r \<longleftrightarrow> (\<exists>c cs. s = c # cs \<and> foldCase c = foldCase p \<and> litCI ps cs = Some r)"
  by (cases s) auto

lemma brandRx_first: "foldCase c \<noteq> CHR ''a'' \<Longrightarrow> brandRx (c # s) = None"
  by (simp add: brandRx_def foldCase_lit)

lemma brandRx_second:
  "foldCase d \<noteq> CHR ''m'' \<Longrightarrow> foldCase d \<noteq> CHR ''w'' \<Longrightarrow> brandRx (c # d # s) = None"
  by (simp add: brandRx_def foldCase_lit)

lemma hasBrand_after_Arch:
  assumes "litCI ''Arch'' s = Some r"
  shows "hasBrand s = hasBrand r"
proof -
  from assms obtain c1 c2 c3 c4 where s: "s = c1 # c2 # c3 # c4 # r"
      and f: "foldCase c1 = CHR ''a''" "foldCase c2 = CHR ''r''" "foldCase c3 = CHR ''c''"
             "foldCase c4 = CHR ''h''"
    by (auto simp: litCI_Cons foldCase_lit)
  have "brandRx (c1 # c2 # c3 # c4 # r) = None" using f by (simp add: brandRx_second)
  moreover have "brandRx (c2 # c3 # c4 # r) = None" using f by (simp add: brandRx_first)
  moreover have "brandRx (c3 # c4 # r) = None" using f by (simp add: brandRx_first)
  moreover have "brandRx (c4 # r) = None" using f by (simp add: brandRx_first)
  ultimately show ?thesis unfolding s by simp
qed

lemma hasBrand_after_Res:
  assumes "litCI ''Res'' s = Some r"
  shows "hasBrand s = hasBrand r"
proof -
  from assms obtain c1 c2 c3 where s: "s = c1 # c2 # c3 # r"
      and f: "foldCase c1 = CHR ''r''" "foldCase c2 = CHR ''e''" "foldCase c3 = CHR ''s''"
    by (auto simp: litCI_Cons foldCase_lit)
  have "brandRx (c1 # c2 # c3 # r) = None" using f by (simp add: brandRx_first)
  moreover have "brandRx (c2 # c3 # r) = None" using f by (simp add: brandRx_first)
  moreover have "brandRx (c3 # r) = None" using f by (simp add: brandRx_first)
  ultimately show ?thesis unfolding s by simp
qed

lemma hasBrand_after_sep1: "sep1 s = Some r \<Longrightarrow> hasBrand s = hasBrand r"
  by (cases s) (auto split: if_splits simp: hasBrand_skip isSep_not_brand simp del: hasBrand.simps)

lemma hasBrand_after_underscore:
  assumes "litCI ''_'' s = Some r"
  shows "hasBrand s = hasBrand r"
proof -
  from assms obtain c where s: "s = c # r" and f: "foldCase c = CHR ''_''"
    by (auto simp: litCI_Cons foldCase_lit)
  from f have "\<not> brandChar c" by (simp add: brandChar_def)
  then show ?thesis unfolding s by (rule hasBrand_skip)
qed

lemma litCI_split: "litCI (p @ q) s = Option.bind (litCI p s) (litCI q)"
  by (induction p s rule: litCI.induct) auto

lemma hasBrand_stripTitlePrefix: "hasBrand (stripTitlePrefix s) = hasBrand s"
proof -
  have a: "hasBrand s = hasBrand r" if "litCI ''Arch_'' s = Some r" for r
  proof -
    from that have "Option.bind (litCI ''Arch'' s) (litCI ''_'') = Some r"
      using litCI_split [of "''Arch''" "''_''" s] by simp
    then obtain m where m: "litCI ''Arch'' s = Some m" "litCI ''_'' m = Some r"
      by (auto simp: bind_eq_Some_conv)
    from m(2) have "hasBrand m = hasBrand r" by (rule hasBrand_after_underscore)
    with m(1) show ?thesis using hasBrand_after_Arch by simp
  qed
  have b: "hasBrand s = hasBrand r" if "litCI ''Res_'' s = Some r" for r
  proof -
    from that have "Option.bind (litCI ''Res'' s) (litCI ''_'') = Some r"
      using litCI_split [of "''Res''" "''_''" s] by simp
    then obtain m where m: "litCI ''Res'' s = Some m" "litCI ''_'' m = Some r"
      by (auto simp: bind_eq_Some_conv)
    from m(2) have "hasBrand m = hasBrand r" by (rule hasBrand_after_underscore)
    with m(1) show ?thesis using hasBrand_after_Res by simp
  qed
  show ?thesis using a b by (auto simp: stripTitlePrefix_def split: option.splits)
qed

lemma lastSegment_no_slash:
  assumes "CHR ''/'' \<notin> set raw"
  shows "lastSegment raw = raw"
proof -
  have "\<forall>c \<in> set (rev raw). c \<noteq> CHR ''/''" using assms by auto
  then have tw: "takeWhile (\<lambda>c. c \<noteq> CHR ''/'') (rev raw) = rev raw"
    by (simp add: takeWhile_eq_all_conv)
  show ?thesis unfolding lastSegment_def tw by simp
qed

lemma hasBrand_cleanTitle:
  assumes "hasBrand (lastSegment raw)"
  shows "hasBrand (cleanTitle raw)"
proof -
  define s0 where "s0 = (if CHR ''/'' \<in> set raw then lastSegment raw else raw)"
  define s4 where "s4 = trimSeps (dedupeUnderscores (stripNumSuffix (stripTitlePrefix s0)))"
  have "s0 = lastSegment raw" unfolding s0_def by (simp add: lastSegment_no_slash)
  with assms have "hasBrand s0" by simp
  then have h4: "hasBrand s4"
    unfolding s4_def
    by (simp add: hasBrand_trimSeps hasBrand_dedupeUnderscores hasBrand_stripNumSuffix
        hasBrand_stripTitlePrefix)
  then have "s4 \<noteq> []" by auto
  then have "cleanTitle raw = s4" by (simp add: cleanTitle_def Let_def s4_def s0_def)
  with h4 show ?thesis by simp
qed


lemma hasBrand_take: "hasBrand (take n s) \<Longrightarrow> hasBrand s"
  using hasBrand_appendI1 [of "take n s" "drop n s"] by simp

lemma hasBrand_stripSizes: "hasBrand (stripSizes s) \<Longrightarrow> hasBrand s"
  by (auto simp: stripSizes_def split: if_splits dest: hasBrand_take)

lemma brand_pats_chars:
  "\<forall>q \<in> set ''Amazon''. brandChar q" "\<forall>q \<in> set ''AWS''. brandChar q"
  by (simp_all add: brandChar_def foldCase_lit)

lemma litCI_brandChar_head:
  "\<forall>q \<in> set p. brandChar q \<Longrightarrow> p \<noteq> [] \<Longrightarrow> \<not> brandChar c \<Longrightarrow> litCI p (c # s) = None"
  by (cases p) (auto simp: brandChar_def)

text \<open>After a deleted token that is glued to nothing, no brand letter pattern matches.\<close>

lemma litCI_after_token:
  assumes "noBrandGlue True r"
      and "r = [] \<or> brandRx r \<noteq> None \<or> \<not> brandChar (hd r)"
      and "p \<noteq> []" and "\<forall>q \<in> set p. brandChar q"
  shows "litCI p (stripBrands r) = None"
  using assms
proof (induction r rule: stripBrands.induct)
  case 1
  then show ?case by (cases p) auto
next
  case (2 c cs)
  show ?case
  proof (cases "brandRx (c # cs)")
    case None
    with "2.prems"(2) have "\<not> brandChar c" by simp
    then have "litCI p (c # stripBrands cs) = None"
      using "2.prems"(3,4) by (intro litCI_brandChar_head)
    with None show ?thesis by simp
  next
    case (Some r2)
    from "2.prems"(1) Some have g: "noBrandGlue True r2"
      and a: "r2 = [] \<or> brandRx r2 \<noteq> None \<or> \<not> brandChar (hd r2)"
      by (auto split: list.splits)
    from "2.IH"(2) [OF Some g a "2.prems"(3,4)] Some show ?thesis by simp
  qed
qed

lemma litCI_stripBrands:
  assumes "noBrandGlue True s" and "\<forall>q \<in> set p. brandChar q" and "litCI p (stripBrands s) \<noteq> None"
  shows "litCI p s \<noteq> None"
  using assms
proof (induction s arbitrary: p rule: stripBrands.induct)
  case 1
  then show ?case by simp
next
  case (2 c cs)
  show ?case
  proof (cases p)
    case Nil
    then show ?thesis by simp
  next
    case (Cons q ps)
    show ?thesis
    proof (cases "brandRx (c # cs)")
      case (Some r)
      from "2.prems"(1) Some have g: "noBrandGlue True r"
        and a: "r = [] \<or> brandRx r \<noteq> None \<or> \<not> brandChar (hd r)"
        by (auto split: list.splits)
      have "litCI p (stripBrands r) = None"
        using g a _ "2.prems"(2) by (rule litCI_after_token) (simp add: Cons)
      with "2.prems"(3) Some show ?thesis by simp
    next
      case None
      with "2.prems"(3) Cons have m: "foldCase c = foldCase q" and t: "litCI ps (stripBrands cs) \<noteq> None"
        by (auto split: if_splits)
      from "2.prems"(2) Cons have bq: "brandChar q" and bps: "\<forall>q \<in> set ps. brandChar q" by simp_all
      from m bq have "brandChar c" by (simp add: brandChar_def)
      with "2.prems"(1) None have "noBrandGlue True cs" by simp
      from "2.IH"(1) [OF None this bps t] have "litCI ps cs \<noteq> None" .
      with m Cons show ?thesis by simp
    qed
  qed
qed

text \<open>The brand deletion leaves no brand token when no deleted token is glued in.\<close>

lemma stripBrands_removes: "noBrandGlue prev s \<Longrightarrow> \<not> hasBrand (stripBrands s)"
proof (induction s arbitrary: prev rule: stripBrands.induct)
  case 1
  show ?case by simp
next
  case (2 c cs)
  show ?case
  proof (cases "brandRx (c # cs)")
    case (Some r)
    with "2.prems" have "noBrandGlue prev r" by simp
    from "2.IH"(2) [OF Some this] Some show ?thesis by simp
  next
    case None
    with "2.prems" have g: "noBrandGlue (brandChar c) cs" by simp
    from "2.IH"(1) [OF None g] have t: "\<not> hasBrand (stripBrands cs)" .
    have e: "stripBrands (c # cs) = c # stripBrands cs" using None by simp
    have "brandRx (c # stripBrands cs) = None"
    proof (cases "brandChar c")
      case False
      then show ?thesis by (rule brandRx_head)
    next
      case True
      with g None have gt: "noBrandGlue True (c # cs)" by simp
      from None have n: "litCI ''Amazon'' (c # cs) = None" "litCI ''AWS'' (c # cs) = None"
        by (simp_all add: brandRx_None)
      have "litCI ''Amazon'' (stripBrands (c # cs)) = None"
        using litCI_stripBrands [OF gt brand_pats_chars(1)] n(1) by blast
      moreover have "litCI ''AWS'' (stripBrands (c # cs)) = None"
        using litCI_stripBrands [OF gt brand_pats_chars(2)] n(2) by blast
      ultimately show ?thesis unfolding e by (simp add: brandRx_None)
    qed
    with t show ?thesis unfolding e by simp
  qed
qed


lemma noBrandGlue_keep:
  "brandRx (c # cs) = None \<Longrightarrow> noBrandGlue prev (c # cs) = noBrandGlue (brandChar c) cs"
  by simp

lemma noBrandGlue_after_Arch:
  assumes "litCI ''Arch'' s = Some r"
  shows "noBrandGlue prev s = noBrandGlue False r"
proof -
  from assms obtain c1 c2 c3 c4 where s: "s = c1 # c2 # c3 # c4 # r"
      and f: "foldCase c1 = CHR ''a''" "foldCase c2 = CHR ''r''" "foldCase c3 = CHR ''c''"
             "foldCase c4 = CHR ''h''"
    by (auto simp: litCI_Cons foldCase_lit)
  have 1: "brandRx (c1 # c2 # c3 # c4 # r) = None" using f by (simp add: brandRx_second)
  have 2: "brandRx (c2 # c3 # c4 # r) = None" using f by (simp add: brandRx_first)
  have 3: "brandRx (c3 # c4 # r) = None" using f by (simp add: brandRx_first)
  have 4: "brandRx (c4 # r) = None" using f by (simp add: brandRx_first)
  have "\<not> brandChar c4" using f by (simp add: brandChar_def)
  then show ?thesis
    unfolding s noBrandGlue_keep [OF 1] noBrandGlue_keep [OF 2] noBrandGlue_keep [OF 3]
      noBrandGlue_keep [OF 4] by simp
qed

lemma noBrandGlue_after_Category:
  assumes "litCI ''Category'' s = Some r"
  shows "noBrandGlue prev s = noBrandGlue False r"
proof -
  from assms obtain c1 c2 c3 c4 c5 c6 c7 c8 where s: "s = c1 # c2 # c3 # c4 # c5 # c6 # c7 # c8 # r"
      and f: "foldCase c1 = CHR ''c''" "foldCase c2 = CHR ''a''" "foldCase c3 = CHR ''t''"
             "foldCase c4 = CHR ''e''" "foldCase c5 = CHR ''g''" "foldCase c6 = CHR ''o''"
             "foldCase c7 = CHR ''r''" "foldCase c8 = CHR ''y''"
    by (auto simp: litCI_Cons foldCase_lit)
  have 1: "brandRx (c1 # c2 # c3 # c4 # c5 # c6 # c7 # c8 # r) = None" using f by (simp add: brandRx_first)
  have 2: "brandRx (c2 # c3 # c4 # c5 # c6 # c7 # c8 # r) = None" using f by (simp add: brandRx_second)
  have 3: "brandRx (c3 # c4 # c5 # c6 # c7 # c8 # r) = None" using f by (simp add: brandRx_first)
  have 4: "brandRx (c4 # c5 # c6 # c7 # c8 # r) = None" using f by (simp add: brandRx_first)
  have 5: "brandRx (c5 # c6 # c7 # c8 # r) = None" using f by (simp add: brandRx_first)
  have 6: "brandRx (c6 # c7 # c8 # r) = None" using f by (simp add: brandRx_first)
  have 7: "brandRx (c7 # c8 # r) = None" using f by (simp add: brandRx_first)
  have 8: "brandRx (c8 # r) = None" using f by (simp add: brandRx_first)
  have "\<not> brandChar c8" using f by (simp add: brandChar_def)
  then show ?thesis
    unfolding s noBrandGlue_keep [OF 1] noBrandGlue_keep [OF 2] noBrandGlue_keep [OF 3]
      noBrandGlue_keep [OF 4] noBrandGlue_keep [OF 5] noBrandGlue_keep [OF 6]
      noBrandGlue_keep [OF 7] noBrandGlue_keep [OF 8] by simp
qed

lemma noBrandGlue_after_Res:
  assumes "litCI ''Res'' s = Some r"
  shows "noBrandGlue prev s = noBrandGlue True r"
proof -
  from assms obtain c1 c2 c3 where s: "s = c1 # c2 # c3 # r"
      and f: "foldCase c1 = CHR ''r''" "foldCase c2 = CHR ''e''" "foldCase c3 = CHR ''s''"
    by (auto simp: litCI_Cons foldCase_lit)
  have 1: "brandRx (c1 # c2 # c3 # r) = None" using f by (simp add: brandRx_first)
  have 2: "brandRx (c2 # c3 # r) = None" using f by (simp add: brandRx_first)
  have 3: "brandRx (c3 # r) = None" using f by (simp add: brandRx_first)
  have "brandChar c3" using f by (simp add: brandChar_def)
  then show ?thesis
    unfolding s noBrandGlue_keep [OF 1] noBrandGlue_keep [OF 2] noBrandGlue_keep [OF 3] by simp
qed

lemma noBrandGlue_after_sep1:
  assumes "sep1 s = Some r"
  shows "noBrandGlue prev s = noBrandGlue False r"
proof -
  from assms obtain c where s: "s = c # r" and c: "isSep c"
    by (cases s) (auto split: if_splits)
  from c have n: "\<not> brandChar c" by (rule isSep_not_brand)
  then have "brandRx (c # r) = None" by (rule brandRx_head)
  from noBrandGlue_keep [OF this] n show ?thesis unfolding s by simp
qed

lemma noBrandGlue_prefixRx:
  assumes "prefixRx s = Some r"
  shows "noBrandGlue prev s = noBrandGlue False r"
proof -
  from assms consider
      (cat) a b c where "litCI ''Arch'' s = Some a" "sep1 a = Some b" "litCI ''Category'' b = Some c"
                        "sep1 c = Some r"
    | (arch) a where "litCI ''Arch'' s = Some a" "sep1 a = Some r"
    | (res) a where "litCI ''Res'' s = Some a" "sep1 a = Some r"
    by (auto simp: prefixRx_def bind_eq_Some_conv split: option.splits)
  then show ?thesis
  proof cases
    case cat
    then show ?thesis
      using noBrandGlue_after_Arch [of s a prev] noBrandGlue_after_sep1 [of a b False]
        noBrandGlue_after_Category [of b c False] noBrandGlue_after_sep1 [of c r False]
      by simp
  next
    case arch
    then show ?thesis
      using noBrandGlue_after_Arch [of s a prev] noBrandGlue_after_sep1 [of a r False] by simp
  next
    case res
    then show ?thesis
      using noBrandGlue_after_Res [of s a prev] noBrandGlue_after_sep1 [of a r True] by simp
  qed
qed

lemma noBrandGlue_stripPrefixes:
  "noBrandGlue False (stripPrefixes s) = noBrandGlue False s"
  by (cases "prefixRx s") (simp_all add: stripPrefixes_def noBrandGlue_prefixRx)

lemma cleanBase_removes_brands:
  assumes "noBrandGlue False b"
  shows "\<not> hasBrand (cleanBase b)"
proof
  assume "hasBrand (cleanBase b)"
  then have "hasBrand (stripSizes (stripBrands (stripPrefixes b)))"
    by (simp add: cleanBase_def hasBrand_trimSeps hasBrand_dedupeSeps)
  then have "hasBrand (stripBrands (stripPrefixes b))" by (rule hasBrand_stripSizes)
  moreover from assms have "noBrandGlue False (stripPrefixes b)"
    by (simp add: noBrandGlue_stripPrefixes)
  ultimately show False using stripBrands_removes by blast
qed

text \<open>
  The invariant of the scan of \<open>extname\<close> with \<open>n\<close> code units left to read: the end of
  the component and the dot lie in the part that was read, and the dot is in front of
  the end.
\<close>

definition extInv :: "string \<Rightarrow> nat \<Rightarrow> extScan \<Rightarrow> bool" where
  "extInv p n s =
     ((\<forall>e. endPos s = Some e \<longrightarrow> n < e \<and> e \<le> length p) \<and>
      (\<forall>sd. startDot s = Some sd \<longrightarrow>
         n \<le> sd \<and> p ! sd = CHR ''.'' \<and> (\<exists>e. endPos s = Some e \<and> sd < e)))"

lemma extLoop_inv:
  "n \<le> length p \<Longrightarrow> extInv p n s \<Longrightarrow> \<exists>k. extInv p k (extLoop p n s)"
proof (induction p n s rule: extLoop.induct)
  case (1 p s)
  then show ?case by auto
next
  case (2 p i s)
  show ?case
  proof (cases "p ! i = CHR ''/''")
    case True
    show ?thesis
    proof (cases "matchedSlash s")
      case False
      with True have "extLoop p (Suc i) s = s\<lparr>startPart := Suc i\<rparr>" by simp
      moreover have "extInv p (Suc i) (s\<lparr>startPart := Suc i\<rparr>)"
        using "2.prems"(2) by (simp add: extInv_def)
      ultimately show ?thesis by auto
    next
      case m: True
      have "extInv p i s" using "2.prems"(2) by (auto simp: extInv_def)
      moreover have "i \<le> length p" using "2.prems"(1) by simp
      ultimately have "\<exists>k. extInv p k (extLoop p i s)" using "2.IH"(1) True m by simp
      with True m show ?thesis by simp
    qed
  next
    case False
    define s1 where "s1 = (if endPos s = None
                   then s\<lparr>endPos := Some (Suc i), matchedSlash := False\<rparr> else s)"
    define s2 where "s2 = (if p ! i = CHR ''.'' then
                     (if startDot s1 = None then s1\<lparr>startDot := Some i\<rparr>
                      else if preDotState s1 \<noteq> 1 then s1\<lparr>preDotState := 1\<rparr> else s1)
                   else if startDot s1 \<noteq> None then s1\<lparr>preDotState := - 1\<rparr> else s1)"
    have e: "extLoop p (Suc i) s = extLoop p i s2"
      using False by (simp add: s1_def s2_def Let_def)
    have i1: "extInv p i s1 \<and> endPos s1 \<noteq> None"
      using "2.prems" by (auto simp: extInv_def s1_def)
    then have "extInv p i s2"
      by (auto simp: extInv_def s2_def)
    moreover have "i \<le> length p" using "2.prems"(1) by simp
    ultimately have "\<exists>k. extInv p k (extLoop p i s2)"
      using "2.IH"(2) [OF False s1_def s2_def] by simp
    with e show ?thesis by simp
  qed
qed

lemma extname_dot: "extname p = [] \<or> (\<exists>e. extname p = CHR ''.'' # e)"
proof -
  define s where "s = extLoop p (length p)
      \<lparr>startDot = None, startPart = 0, endPos = None, matchedSlash = True, preDotState = 0\<rparr>"
  have "extInv p (length p)
      \<lparr>startDot = None, startPart = 0, endPos = None, matchedSlash = True, preDotState = 0\<rparr>"
    by (simp add: extInv_def)
  then obtain k where k: "extInv p k s"
    unfolding s_def using extLoop_inv [of "length p" p] by blast
  show ?thesis
  proof (cases "startDot s")
    case None
    then show ?thesis by (simp add: extname_def s_def [symmetric])
  next
    case (Some sd)
    with k obtain e where e: "endPos s = Some e" "sd < e" "e \<le> length p" "p ! sd = CHR ''.''"
      by (auto simp: extInv_def)
    then have "drop sd p = CHR ''.'' # drop (Suc sd) p"
      by (metis Cons_nth_drop_Suc less_le_trans)
    then have "slice p sd e = CHR ''.'' # take (e - sd - 1) (drop (Suc sd) p)"
      using e(2) by (cases "e - sd") (auto simp: slice_def)
    with Some e show ?thesis by (simp add: extname_def s_def [symmetric])
  qed
qed

lemma hasBrand_ext: "hasBrand (b @ extname p) = (hasBrand b \<or> hasBrand (extname p))"
proof -
  have d: "\<not> brandChar CHR ''.''" by (simp add: brandChar_def foldCase_lit)
  from extname_dot [of p] show ?thesis
  proof
    assume "extname p = []"
    then show ?thesis by simp
  next
    assume "\<exists>e. extname p = CHR ''.'' # e"
    then obtain e where e: "extname p = CHR ''.'' # e" by blast
    show ?thesis unfolding e using hasBrand_stop [OF d, of b e] hasBrand_skip [OF d, of e] by simp
  qed
qed

text \<open>
  Claim C3 (title rule and filename rule diverge), as amended. For a name that contains
  a brand token: the title rule keeps a brand token when the name has no slash (or, with
  a slash, when the part after the last slash has one); the filename rule gives a name
  with no brand token when the cleaned base is not empty (so the fallback is not taken),
  no deleted token of the base is glued between two kept letters of the brand tokens
  and, for a file, the extension has no brand token.
\<close>

theorem brand_rules_diverge:
  assumes "hasBrand name"
  shows "(CHR ''/'' \<notin> set name \<longrightarrow> hasBrand (cleanTitle name))
       \<and> (hasBrand (lastSegment name) \<longrightarrow> hasBrand (cleanTitle name))
       \<and> (cleanBase name \<noteq> [] \<and> noBrandGlue False name
            \<longrightarrow> \<not> hasBrand (cleanName name False))
       \<and> (cleanBase (basename2 name (extname name)) \<noteq> []
           \<and> noBrandGlue False (basename2 name (extname name))
           \<and> \<not> hasBrand (extname name)
            \<longrightarrow> \<not> hasBrand (cleanName name True))"
proof (intro conjI impI)
  assume "CHR ''/'' \<notin> set name"
  then have "lastSegment name = name" by (rule lastSegment_no_slash)
  with assms show "hasBrand (cleanTitle name)" using hasBrand_cleanTitle [of name] by simp
next
  assume "hasBrand (lastSegment name)"
  then show "hasBrand (cleanTitle name)" by (rule hasBrand_cleanTitle)
next
  assume a: "cleanBase name \<noteq> [] \<and> noBrandGlue False name"
  then have "cleanName name False = cleanBase name" by (simp add: cleanName_def)
  with a show "\<not> hasBrand (cleanName name False)" using cleanBase_removes_brands [of name] by simp
next
  assume a: "cleanBase (basename2 name (extname name)) \<noteq> []
           \<and> noBrandGlue False (basename2 name (extname name))
           \<and> \<not> hasBrand (extname name)"
  then have "cleanName name True = cleanBase (basename2 name (extname name)) @ extname name"
    by (simp add: cleanName_def Let_def)
  with a show "\<not> hasBrand (cleanName name True)"
    using cleanBase_removes_brands [of "basename2 name (extname name)"] by (simp add: hasBrand_ext)
qed

theorem brand_rules_diverge_witness:
  "hasBrand ''Arch_Amazon-EC2_48.svg'' \<and> CHR ''/'' \<notin> set ''Arch_Amazon-EC2_48.svg'' \<and>
   noBrandGlue False ''Arch_Amazon-EC2_48.svg'' \<and>
   cleanTitle ''Arch_Amazon-EC2_48.svg'' = ''Amazon-EC2_48.svg'' \<and>
   hasBrand (cleanTitle ''Arch_Amazon-EC2_48.svg'') \<and>
   cleanName ''Arch_Amazon-EC2_48.svg'' True = ''EC2.svg'' \<and>
   \<not> hasBrand (cleanName ''Arch_Amazon-EC2_48.svg'' True) \<and>
   cleanName ''Arch_Amazon-EC2_48.svg'' False = ''EC2_48.svg'' \<and>
   \<not> hasBrand (cleanName ''Arch_Amazon-EC2_48.svg'' False)"
proof -
  have h: "hasBrand ''Arch_Amazon-EC2_48.svg''" by code_simp
  have s: "CHR ''/'' \<notin> set ''Arch_Amazon-EC2_48.svg''" by simp
  have t: "cleanTitle ''Arch_Amazon-EC2_48.svg'' = ''Amazon-EC2_48.svg''" by code_simp
  have f: "cleanName ''Arch_Amazon-EC2_48.svg'' True = ''EC2.svg''" by code_simp
  have d: "cleanName ''Arch_Amazon-EC2_48.svg'' False = ''EC2_48.svg''" by code_simp
  have p1: "cleanBase ''Arch_Amazon-EC2_48.svg'' \<noteq> [] \<and>
            noBrandGlue False ''Arch_Amazon-EC2_48.svg''"
    by code_simp
  have p2: "cleanBase (basename2 ''Arch_Amazon-EC2_48.svg'' (extname ''Arch_Amazon-EC2_48.svg'')) \<noteq> []
           \<and> noBrandGlue False (basename2 ''Arch_Amazon-EC2_48.svg'' (extname ''Arch_Amazon-EC2_48.svg''))
           \<and> \<not> hasBrand (extname ''Arch_Amazon-EC2_48.svg'')"
    by code_simp
  from brand_rules_diverge [OF h] s p1 p2
  have "hasBrand (cleanTitle ''Arch_Amazon-EC2_48.svg'') \<and>
        \<not> hasBrand (cleanName ''Arch_Amazon-EC2_48.svg'' False) \<and>
        \<not> hasBrand (cleanName ''Arch_Amazon-EC2_48.svg'' True)"
    by blast
  with h s t f d p1 show ?thesis by blast
qed

text \<open>
  The claim as it is written fails in four ways: the fallback returns a name that is
  made of brand tokens only (\<open>AWS\<close>); the extension of a file is held aside and is not
  cleaned (\<open>x.aws\<close>); the one pass of the brand deletion can join the pieces of a new
  token (\<open>AmaAWSzon\<close>); and the title rule keeps the part after the last slash only
  (\<open>AWS/EC2\<close>).
\<close>

theorem brand_rules_counterexample:
  "hasBrand ''AWS'' \<and> hasBrand (cleanName ''AWS'' False) \<and>
   hasBrand ''x.aws'' \<and> hasBrand (cleanName ''x.aws'' True) \<and>
   hasBrand ''AmaAWSzon'' \<and> hasBrand (cleanName ''AmaAWSzon'' False) \<and>
   hasBrand ''AWS/EC2'' \<and> \<not> hasBrand (cleanTitle ''AWS/EC2'')"
  by code_simp

text \<open>The name that the one pass does not clean is refused by the condition.\<close>

lemma noBrandGlue_glued: "\<not> noBrandGlue False ''AmaAWSzon''"
  by code_simp

section \<open>TreeMerger: the category merge loop of restructure.js\<close>

text \<open>
  A directory tree: a file with its content, or a directory with its entries in the
  order \<open>readdir\<close> lists them.
\<close>

datatype node = File string | Dir "(string \<times> node) list"

text \<open>
  \<open>path.join(dir, name)\<close> for a normalised directory path and a plain entry name (the
  roots come from \<open>path.resolve\<close>, the names from directory listings).
\<close>

definition pathJoin :: "string \<Rightarrow> string \<Rightarrow> string" where
  "pathJoin d n = d @ ''/'' @ n"

text \<open>
  The generator \<open>walk(dir)\<close>: the files below \<open>dir\<close>, depth first in listing order, each
  with the content that a copy of it reads.
\<close>

fun walk :: "string \<Rightarrow> (string \<times> node) list \<Rightarrow> (string \<times> string) list" where
  "walk dir [] = []"
| "walk dir ((name, File c) # es) = (pathJoin dir name, c) # walk dir es"
| "walk dir ((name, Dir kids) # es) = walk (pathJoin dir name) kids @ walk dir es"

text \<open>The rejections of the file-system calls that the model keeps.\<close>

datatype error = ENOENT string | EEXIST string

text \<open>
  The entries of the subdirectory \<open>n\<close>; \<open>None\<close> when there is no such directory, where
  \<open>fs.readdir\<close> rejects.
\<close>

fun readdir :: "(string \<times> node) list \<Rightarrow> string \<Rightarrow> (string \<times> node) list option" where
  "readdir [] n = None"
| "readdir ((name, File c) # es) n = (if name = n then None else readdir es n)"
| "readdir ((name, Dir kids) # es) n = (if name = n then Some kids else readdir es n)"

definition walkIn :: "string \<Rightarrow> (string \<times> node) list \<Rightarrow> string \<Rightarrow> error + (string \<times> string) list" where
  "walkIn dir entries n =
     (case readdir entries n of
        None \<Rightarrow> Inl (ENOENT (pathJoin dir n))
      | Some kids \<Rightarrow> Inr (walk (pathJoin dir n) kids))"

text \<open>
  An element \<open>{ src, dst }\<close> of the array \<open>jobs\<close>, with the content of the source file.
\<close>

record job =
  src :: string
  srcData :: string
  dst :: string

text \<open>
  The mutable state of the merge: the fields of the object \<open>sum\<close> and the files of the
  destination tree (path and content, in the order they were written). Directories of
  the destination are not tracked: \<open>ensureDir\<close> creates them in a live run and in a dry
  run alike.
\<close>

record mstate =
  copied :: nat
  skipped :: nat
  merged :: nat
  archOnly :: nat
  unmatched :: "string list"
  destFiles :: "(string \<times> string) list"

text \<open>The roots that the script locates and the two source trees below them.\<close>

record env =
  archRoot :: string
  resRoot :: string
  dest :: string
  archTree :: "(string \<times> node) list"
  resTree :: "(string \<times> node) list"

fun isDirectory :: "node \<Rightarrow> bool" where
  "isDirectory (File c) = False"
| "isDirectory (Dir kids) = True"

definition dirents :: "(string \<times> node) list \<Rightarrow> dirent list" where
  "dirents entries = map (\<lambda>(name, nd). (name, isDirectory nd)) entries"

definition archCats :: "env \<Rightarrow> jsMap" where
  "archCats e = archCatsOf (dirents (archTree e))"

definition resCats :: "env \<Rightarrow> jsMap" where
  "resCats e = resCatsOf (dirents (resTree e))"

text \<open>
  \<open>resCats.get(alias[slugCat] ?? slugCat)\<close>. The object \<open>alias\<close> inherits the property
  \<open>constructor\<close> from \<open>Object.prototype\<close>; it is the only inherited property whose name
  can be a slug, and its value is no key of the map.
\<close>

definition resDirNameOf :: "env \<Rightarrow> string \<Rightarrow> string option" where
  "resDirNameOf e slugCat =
     (case aliasMap (archCats e) (resCats e) slugCat of
        Some a \<Rightarrow> mapGet (resCats e) a
      | None \<Rightarrow> if slugCat = ''constructor'' then None else mapGet (resCats e) slugCat)"

text \<open>
  \<open>fs.copyFile(src, dst, COPYFILE_EXCL)\<close>: rejects when the destination exists.
\<close>

definition copyFileExcl :: "string \<Rightarrow> string \<Rightarrow> (string \<times> string) list \<Rightarrow> error + (string \<times> string) list" where
  "copyFileExcl content out fs =
     (if out \<in> fst ` set fs then Inl (EEXIST out) else Inr (fs @ [(out, content)]))"

text \<open>
  One round of the loop of \<open>worker\<close>. The workers share the index \<open>i\<close>, and \<open>jobs[i++]\<close>
  runs without interruption, so every job is taken once; the model runs the jobs in
  the order of the array. With no worker (\<open>cfg.concurrency\<close> is 0) no job runs.
\<close>

definition workerStep :: "config \<Rightarrow> mstate \<Rightarrow> job \<Rightarrow> mstate" where
  "workerStep cfg st j =
     (if cfgDryRun cfg then st\<lparr>copied := copied st + 1\<rparr>
      else (case copyFileExcl (srcData j) (dst j) (destFiles st) of
              Inr fs \<Rightarrow> st\<lparr>copied := copied st + 1, destFiles := fs\<rparr>
            | Inl e \<Rightarrow> st\<lparr>skipped := skipped st + 1\<rparr>))"

definition runWorkers :: "config \<Rightarrow> job list \<Rightarrow> mstate \<Rightarrow> mstate" where
  "runWorkers cfg jobs st = (if cfgConcurrency cfg = 0 then st else foldl (workerStep cfg) st jobs)"

text \<open>
  The two loops that fill \<open>jobs\<close>. In the second one the \<open>else\<close> branch belongs to the
  inner \<open>if (matchesSize(f))\<close>: it runs once for every resource file that the filter
  refuses, and never for a category without a resource directory.
\<close>

definition jobFor :: "string \<Rightarrow> string \<times> string \<Rightarrow> job" where
  "jobFor dstDir f = \<lparr>src = fst f, srcData = snd f, dst = pathJoin dstDir (basename (fst f))\<rparr>"

definition archJobs :: "config \<Rightarrow> string \<Rightarrow> (string \<times> string) list \<Rightarrow> job list" where
  "archJobs cfg dstDir fs = map (jobFor dstDir) (filter (\<lambda>f. matchesSize cfg (fst f)) fs)"

definition resStep :: "config \<Rightarrow> string \<Rightarrow> string \<Rightarrow> job list \<times> mstate \<Rightarrow> string \<times> string \<Rightarrow> job list \<times> mstate" where
  "resStep cfg dstDir archDirName acc f =
     (case acc of (jobs, st) \<Rightarrow>
        if matchesSize cfg (fst f) then (jobs @ [jobFor dstDir f], st)
        else (jobs, st\<lparr>archOnly := archOnly st + 1, unmatched := unmatched st @ [archDirName]\<rparr>))"

text \<open>
  \<open>/([_-]|^)dark([_-]|\.svg$)/i.test(base)\<close>, and the test of the whole path for
  \<open>/dark/\<close>.
\<close>

definition darkHere :: "string \<Rightarrow> bool" where
  "darkHere s =
     (case litCI ''dark'' s of
        None \<Rightarrow> False
      | Some r \<Rightarrow> (r \<noteq> [] \<and> isSep (hd r)) \<or> litCI ''.svg'' r = Some [])"

fun darkAfterSep :: "string \<Rightarrow> bool" where
  "darkAfterSep [] = False"
| "darkAfterSep (c # cs) = ((isSep c \<and> darkHere cs) \<or> darkAfterSep cs)"

definition isDark :: "string \<Rightarrow> bool" where
  "isDark f =
     (darkHere (basename f) \<or> darkAfterSep (basename f) \<or> strIncludes (toLowerCase f) ''/dark/'')"

text \<open>
  \<open>ingest\<close> of \<open>processGeneral\<close>: its exclusive copy is not inside a \<open>try\<close>, so a
  destination that exists ends the run.
\<close>

definition ingestStep :: "config \<Rightarrow> env \<Rightarrow> error + mstate \<Rightarrow> string \<times> string \<Rightarrow> error + mstate" where
  "ingestStep cfg e acc f =
     (case acc of
        Inl err \<Rightarrow> Inl err
      | Inr st \<Rightarrow>
          if toLowerCase (extname (fst f)) \<noteq> ''.svg'' then Inr st
          else (let out = pathJoin (pathJoin (dest e)
                            (if isDark (fst f) then ''General-Icons-Dark'' else ''General-Icons-Light''))
                            (basename (fst f))
                in if cfgDryRun cfg then Inr st
                   else (case copyFileExcl (snd f) out (destFiles st) of
                           Inl err \<Rightarrow> Inl err
                         | Inr fs \<Rightarrow> Inr (st\<lparr>destFiles := fs\<rparr>))))"

definition ingest :: "config \<Rightarrow> env \<Rightarrow> (string \<times> string) list \<Rightarrow> mstate \<Rightarrow> error + mstate" where
  "ingest cfg e fs st = foldl (ingestStep cfg e) (Inr st) fs"

definition processGeneral :: "config \<Rightarrow> env \<Rightarrow> string \<Rightarrow> string option \<Rightarrow> mstate \<Rightarrow> error + mstate" where
  "processGeneral cfg e archDirName resDir st =
     (case walkIn (archRoot e) (archTree e) archDirName of
        Inl err \<Rightarrow> Inl err
      | Inr afs \<Rightarrow>
         (case ingest cfg e afs st of
            Inl err \<Rightarrow> Inl err
          | Inr st1 \<Rightarrow>
             (case resDir of
                None \<Rightarrow> Inr st1
              | Some rd \<Rightarrow>
                 (case walkIn (resRoot e) (resTree e) rd of
                    Inl err \<Rightarrow> Inl err
                  | Inr rfs \<Rightarrow> ingest cfg e rfs st1))))"

text \<open>\<open>mergeCat(slugCat, archDirName)\<close>.\<close>

definition mergeCat :: "config \<Rightarrow> env \<Rightarrow> string \<Rightarrow> string \<Rightarrow> mstate \<Rightarrow> error + mstate" where
  "mergeCat cfg e slugCat archDirName st =
     (if archDirName = ''Arch_General-Icons'' then
        (case processGeneral cfg e archDirName (resDirNameOf e slugCat) st of
           Inl err \<Rightarrow> Inl err
         | Inr st1 \<Rightarrow> Inr (st1\<lparr>archOnly := archOnly st1 + 1\<rparr>))
      else
        (let resDirName = resDirNameOf e slugCat;
             dstDir = pathJoin (dest e) archDirName
         in case readdir (archTree e) archDirName of
              None \<Rightarrow> Inl (ENOENT (pathJoin (archRoot e) archDirName))
            | Some catKids \<Rightarrow>
               (case walkIn (pathJoin (archRoot e) archDirName) catKids (cfgSize cfg) of
                  Inl err \<Rightarrow> Inl err
                | Inr afs \<Rightarrow>
                   (case (case resDirName of
                            None \<Rightarrow> Inr []
                          | Some rd \<Rightarrow> walkIn (resRoot e) (resTree e) rd) of
                      Inl err \<Rightarrow> Inl err
                    | Inr rfs \<Rightarrow>
                       (let (jobs, st1) = foldl (resStep cfg dstDir archDirName)
                                            (archJobs cfg dstDir afs, st) rfs;
                            st2 = runWorkers cfg jobs st1
                        in Inr (if resDirName \<noteq> None then st2\<lparr>merged := merged st2 + 1\<rparr> else st2))))))"

text \<open>
  \<open>await Promise.all([...archCats].map(([s, d]) => mergeCat(s, d)))\<close>. The categories
  write to different destination directories; the model runs them one after the other
  in the order of the map, and a rejection ends the run.
\<close>

definition mergeStep :: "config \<Rightarrow> env \<Rightarrow> error + mstate \<Rightarrow> string \<times> string \<Rightarrow> error + mstate" where
  "mergeStep cfg e acc cat =
     (case acc of Inl err \<Rightarrow> Inl err | Inr st \<Rightarrow> mergeCat cfg e (fst cat) (snd cat) st)"

definition initState :: "(string \<times> string) list \<Rightarrow> mstate" where
  "initState fs = \<lparr>copied = 0, skipped = 0, merged = 0, archOnly = 0, unmatched = [], destFiles = fs\<rparr>"

definition mergeAll :: "config \<Rightarrow> env \<Rightarrow> (string \<times> string) list \<Rightarrow> error + mstate" where
  "mergeAll cfg e fs = foldl (mergeStep cfg e) (Inr (initState fs)) (archCats e)"

text \<open>The statistics that the summary prints, when the run reaches it.\<close>

definition statsOf :: "error + mstate \<Rightarrow> (nat \<times> nat \<times> nat \<times> nat \<times> string list) option" where
  "statsOf r = (case r of Inl err \<Rightarrow> None
                | Inr st \<Rightarrow> Some (copied st, skipped st, merged st, archOnly st, unmatched st))"

definition env2 :: env where
  "env2 = \<lparr>archRoot = ''/raw/Architecture-Service-Icons'', resRoot = ''/raw/Resource-Icons'',
           dest = ''/out'',
           archTree = [(''Arch_Compute'', Dir [(''48'', Dir [(''EC2_48.svg'', File ''arch'')])])],
           resTree = [(''Res_Compute'', Dir [(''EC2_48.svg'', File ''res'')])]\<rparr>"

section \<open>TreeMerger: properties of the copy workers\<close>

lemma workerStep_live:
  assumes "\<not> cfgDryRun cfg"
  shows "workerStep cfg st j =
     (if dst j \<in> fst ` set (destFiles st) then st\<lparr>skipped := skipped st + 1\<rparr>
      else st\<lparr>copied := copied st + 1, destFiles := destFiles st @ [(dst j, srcData j)]\<rparr>)"
  using assms by (simp add: workerStep_def copyFileExcl_def)

lemma workerStep_fields:
  "merged (workerStep cfg st j) = merged st \<and> archOnly (workerStep cfg st j) = archOnly st
   \<and> unmatched (workerStep cfg st j) = unmatched st"
  by (simp add: workerStep_def split: sum.splits)

lemma workers_fields:
  "merged (foldl (workerStep cfg) st jobs) = merged st
   \<and> archOnly (foldl (workerStep cfg) st jobs) = archOnly st
   \<and> unmatched (foldl (workerStep cfg) st jobs) = unmatched st"
  by (induction jobs arbitrary: st) (simp_all add: workerStep_fields)

lemma workers_live_count:
  assumes "\<not> cfgDryRun cfg"
  shows "copied (foldl (workerStep cfg) st jobs) + skipped (foldl (workerStep cfg) st jobs)
           = copied st + skipped st + length jobs"
proof (induction jobs arbitrary: st)
  case Nil
  show ?case by simp
next
  case (Cons j jobs)
  have "copied (workerStep cfg st j) + skipped (workerStep cfg st j) = copied st + skipped st + 1"
    using assms by (simp add: workerStep_live)
  with Cons.IH [of "workerStep cfg st j"] show ?case by simp
qed

lemma workers_live_files:
  assumes "\<not> cfgDryRun cfg"
  shows "\<exists>new. destFiles (foldl (workerStep cfg) st jobs) = destFiles st @ new
           \<and> copied (foldl (workerStep cfg) st jobs) = copied st + length new"
proof (induction jobs arbitrary: st)
  case Nil
  show ?case by simp
next
  case (Cons j jobs)
  from Cons.IH [of "workerStep cfg st j"] obtain new where
      n: "destFiles (foldl (workerStep cfg) (workerStep cfg st j) jobs) = destFiles (workerStep cfg st j) @ new"
         "copied (foldl (workerStep cfg) (workerStep cfg st j) jobs) = copied (workerStep cfg st j) + length new"
    by blast
  show ?case
  proof (cases "dst j \<in> fst ` set (destFiles st)")
    case True
    then have "destFiles (workerStep cfg st j) = destFiles st" "copied (workerStep cfg st j) = copied st"
      using assms by (simp_all add: workerStep_live)
    with n show ?thesis by simp
  next
    case False
    then have "destFiles (workerStep cfg st j) = destFiles st @ [(dst j, srcData j)]"
        "copied (workerStep cfg st j) = copied st + 1"
      using assms by (simp_all add: workerStep_live)
    with n have "destFiles (foldl (workerStep cfg) st (j # jobs)) = destFiles st @ ((dst j, srcData j) # new)
        \<and> copied (foldl (workerStep cfg) st (j # jobs)) = copied st + length ((dst j, srcData j) # new)"
      by simp
    then show ?thesis by blast
  qed
qed

lemma workers_live_skipped:
  assumes "\<not> cfgDryRun cfg"
  shows "skipped st \<le> skipped (foldl (workerStep cfg) st jobs)"
proof (induction jobs arbitrary: st)
  case Nil
  show ?case by simp
next
  case (Cons j jobs)
  have "skipped st \<le> skipped (workerStep cfg st j)"
    using assms by (simp add: workerStep_live)
  with Cons.IH [of "workerStep cfg st j"] show ?case by simp
qed

lemma map_of_append_old:
  "p \<in> fst ` set fs \<Longrightarrow> map_of (fs @ new) p = map_of fs p"
  by (induction fs) auto

text \<open>
  Claim C8 (collisions of copy jobs): in a live run, a job whose destination exists
  leaves the destination as it is and adds one to \<open>skipped\<close>; a job whose destination
  does not exist writes it and adds one to \<open>copied\<close>. The workers never stop early:
  with at least one worker every job is counted as copied or skipped, the files that
  were written are as many as \<open>copied\<close> grew, and no file that existed before is
  changed.
\<close>

theorem worker_collision_handling:
  assumes "\<not> cfgDryRun cfg"
  shows "(dst j \<in> fst ` set (destFiles st) \<longrightarrow>
            workerStep cfg st j = st\<lparr>skipped := skipped st + 1\<rparr>)
       \<and> (dst j \<notin> fst ` set (destFiles st) \<longrightarrow>
            workerStep cfg st j =
              st\<lparr>copied := copied st + 1, destFiles := destFiles st @ [(dst j, srcData j)]\<rparr>)
       \<and> (0 < cfgConcurrency cfg \<longrightarrow>
            copied (runWorkers cfg jobs st) + skipped (runWorkers cfg jobs st)
              = copied st + skipped st + length jobs)
       \<and> (\<exists>new. destFiles (runWorkers cfg jobs st) = destFiles st @ new
              \<and> copied (runWorkers cfg jobs st) = copied st + length new)
       \<and> skipped st \<le> skipped (runWorkers cfg jobs st)
       \<and> (\<forall>p. p \<in> fst ` set (destFiles st) \<longrightarrow>
              map_of (destFiles (runWorkers cfg jobs st)) p = map_of (destFiles st) p)"
proof -
  have 1: "dst j \<in> fst ` set (destFiles st) \<longrightarrow>
            workerStep cfg st j = st\<lparr>skipped := skipped st + 1\<rparr>"
    using assms by (simp add: workerStep_live)
  have 2: "dst j \<notin> fst ` set (destFiles st) \<longrightarrow>
            workerStep cfg st j =
              st\<lparr>copied := copied st + 1, destFiles := destFiles st @ [(dst j, srcData j)]\<rparr>"
    using assms by (simp add: workerStep_live)
  have 3: "0 < cfgConcurrency cfg \<longrightarrow>
            copied (runWorkers cfg jobs st) + skipped (runWorkers cfg jobs st)
              = copied st + skipped st + length jobs"
    using workers_live_count [OF assms] by (simp add: runWorkers_def)
  have 4: "\<exists>new. destFiles (runWorkers cfg jobs st) = destFiles st @ new
              \<and> copied (runWorkers cfg jobs st) = copied st + length new"
  proof (cases "cfgConcurrency cfg = 0")
    case True
    then have "destFiles (runWorkers cfg jobs st) = destFiles st @ []
               \<and> copied (runWorkers cfg jobs st) = copied st + length ([] :: (string \<times> string) list)"
      by (simp add: runWorkers_def)
    then show ?thesis by blast
  next
    case False
    then show ?thesis using workers_live_files [OF assms] by (simp add: runWorkers_def)
  qed
  have 5: "skipped st \<le> skipped (runWorkers cfg jobs st)"
    using workers_live_skipped [OF assms] by (simp add: runWorkers_def)
  have 6: "\<forall>p. p \<in> fst ` set (destFiles st) \<longrightarrow>
              map_of (destFiles (runWorkers cfg jobs st)) p = map_of (destFiles st) p"
  proof (intro allI impI)
    fix p assume p: "p \<in> fst ` set (destFiles st)"
    from 4 obtain new where "destFiles (runWorkers cfg jobs st) = destFiles st @ new" by blast
    then show "map_of (destFiles (runWorkers cfg jobs st)) p = map_of (destFiles st) p"
      using map_of_append_old [OF p, of new] by (simp only:)
  qed
  from 1 2 3 4 5 6 show ?thesis by blast
qed

definition jobA :: job where
  "jobA = \<lparr>src = ''/raw/a/EC2_48.svg'', srcData = ''arch'', dst = ''/out/Arch_Compute/EC2_48.svg''\<rparr>"

definition jobB :: job where
  "jobB = \<lparr>src = ''/raw/r/EC2_48.svg'', srcData = ''res'', dst = ''/out/Arch_Compute/EC2_48.svg''\<rparr>"

theorem worker_collision_handling_witness:
  "\<not> cfgDryRun cfg48 \<and> 0 < cfgConcurrency cfg48 \<and>
   runWorkers cfg48 [jobA, jobB] (initState []) =
     (initState [])\<lparr>copied := 1, skipped := 1, destFiles := [(''/out/Arch_Compute/EC2_48.svg'', ''arch'')]\<rparr> \<and>
   workerStep cfg48 (initState [(''/out/Arch_Compute/EC2_48.svg'', ''old'')]) jobA =
     (initState [(''/out/Arch_Compute/EC2_48.svg'', ''old'')])\<lparr>skipped := 1\<rparr> \<and>
   copied (runWorkers cfg48 [jobA, jobB] (initState [])) + skipped (runWorkers cfg48 [jobA, jobB] (initState []))
     = length [jobA, jobB]"
proof -
  have l: "\<not> cfgDryRun cfg48" by (simp add: cfg48_def)
  have c: "0 < cfgConcurrency cfg48" by (simp add: cfg48_def)
  have r: "runWorkers cfg48 [jobA, jobB] (initState []) =
     (initState [])\<lparr>copied := 1, skipped := 1, destFiles := [(''/out/Arch_Compute/EC2_48.svg'', ''arch'')]\<rparr>"
    by (simp add: runWorkers_def workerStep_def copyFileExcl_def cfg48_def jobA_def jobB_def initState_def)
  have e: "dst jobA \<in> fst ` set (destFiles (initState [(''/out/Arch_Compute/EC2_48.svg'', ''old'')]))"
    by (simp add: jobA_def initState_def)
  from worker_collision_handling [OF l, of jobA "initState [(''/out/Arch_Compute/EC2_48.svg'', ''old'')]" "[jobA, jobB]"] e
  have s: "workerStep cfg48 (initState [(''/out/Arch_Compute/EC2_48.svg'', ''old'')]) jobA =
     (initState [(''/out/Arch_Compute/EC2_48.svg'', ''old'')])\<lparr>skipped := 1\<rparr>"
    by (simp add: initState_def)
  from worker_collision_handling [OF l, of jobA "initState []" "[jobA, jobB]"] c
  have n: "copied (runWorkers cfg48 [jobA, jobB] (initState [])) + skipped (runWorkers cfg48 [jobA, jobB] (initState []))
     = length [jobA, jobB]"
    by (simp add: initState_def)
  from l c r s n show ?thesis by blast
qed

section \<open>TreeMerger: a dry run against a live run\<close>

text \<open>
  The relation between the state of a dry run and the state of a live run of the same
  merge: the dry run counts as copied what the live run copies or skips.
\<close>

definition dryLive :: "mstate \<Rightarrow> mstate \<Rightarrow> bool" where
  "dryLive sD sL =
     (merged sD = merged sL \<and> archOnly sD = archOnly sL \<and> unmatched sD = unmatched sL
      \<and> copied sD = copied sL + skipped sL \<and> skipped sD = 0)"

lemma matchesSize_dryRun [simp]: "matchesSize (cfg\<lparr>cfgDryRun := b\<rparr>) = matchesSize cfg"
  by (rule ext) (simp add: matchesSize_def)

lemma archJobs_dryRun [simp]: "archJobs (cfg\<lparr>cfgDryRun := b\<rparr>) = archJobs cfg"
  by (intro ext) (simp add: archJobs_def)

lemma resStep_dryRun [simp]: "resStep (cfg\<lparr>cfgDryRun := b\<rparr>) = resStep cfg"
  by (intro ext) (simp add: resStep_def)

text \<open>What the loop over the resource files leaves: the jobs and the counters.\<close>

lemma resStep_fold:
  "foldl (resStep cfg d a) (jobs, st) rfs =
     (jobs @ map (jobFor d) (filter (\<lambda>f. matchesSize cfg (fst f)) rfs),
      st\<lparr>archOnly := archOnly st + length (filter (\<lambda>f. \<not> matchesSize cfg (fst f)) rfs),
         unmatched := unmatched st @ replicate (length (filter (\<lambda>f. \<not> matchesSize cfg (fst f)) rfs)) a\<rparr>)"
proof (induction rfs arbitrary: jobs st)
  case Nil
  show ?case by simp
next
  case (Cons f rfs)
  show ?case
  proof (cases "matchesSize cfg (fst f)")
    case True
    then have "resStep cfg d a (jobs, st) f = (jobs @ [jobFor d f], st)" by (simp add: resStep_def)
    then show ?thesis using Cons.IH [of "jobs @ [jobFor d f]" st] True by simp
  next
    case False
    then have "resStep cfg d a (jobs, st) f
        = (jobs, st\<lparr>archOnly := archOnly st + 1, unmatched := unmatched st @ [a]\<rparr>)"
      by (simp add: resStep_def)
    then show ?thesis
      using Cons.IH [of jobs "st\<lparr>archOnly := archOnly st + 1, unmatched := unmatched st @ [a]\<rparr>"] False
      by (simp add: replicate_app_Cons_same)
  qed
qed

lemma workerStep_dry:
  "cfgDryRun cfg \<Longrightarrow> workerStep cfg st j = st\<lparr>copied := copied st + 1\<rparr>"
  by (simp add: workerStep_def)

lemma workers_tandem:
  assumes "dryLive sD sL"
  shows "dryLive (foldl (workerStep (cfg\<lparr>cfgDryRun := True\<rparr>)) sD jobs)
                 (foldl (workerStep (cfg\<lparr>cfgDryRun := False\<rparr>)) sL jobs)"
  using assms
proof (induction jobs arbitrary: sD sL)
  case Nil
  then show ?case by simp
next
  case (Cons j jobs)
  have "dryLive (workerStep (cfg\<lparr>cfgDryRun := True\<rparr>) sD j) (workerStep (cfg\<lparr>cfgDryRun := False\<rparr>) sL j)"
    using Cons.prems by (simp add: workerStep_dry workerStep_live dryLive_def)
  from Cons.IH [OF this] show ?case by simp
qed

lemma runWorkers_tandem:
  "dryLive sD sL \<Longrightarrow>
   dryLive (runWorkers (cfg\<lparr>cfgDryRun := True\<rparr>) jobs sD) (runWorkers (cfg\<lparr>cfgDryRun := False\<rparr>) jobs sL)"
  by (simp add: runWorkers_def workers_tandem)

lemma workers_dry_files:
  "cfgDryRun cfg \<Longrightarrow> destFiles (foldl (workerStep cfg) st jobs) = destFiles st"
  by (induction jobs arbitrary: st) (simp_all add: workerStep_dry)

lemma runWorkers_dry_files:
  "cfgDryRun cfg \<Longrightarrow> destFiles (runWorkers cfg jobs st) = destFiles st"
  by (simp add: runWorkers_def workers_dry_files)

lemma ingest_Inl: "foldl (ingestStep cfg e) (Inl err) fs = Inl err"
  by (induction fs) (simp_all add: ingestStep_def)

lemma ingest_dry: "cfgDryRun cfg \<Longrightarrow> ingest cfg e fs st = Inr st"
  unfolding ingest_def by (induction fs) (simp_all add: ingestStep_def Let_def)

text \<open>Two states with the same statistics.\<close>

definition sameStats :: "mstate \<Rightarrow> mstate \<Rightarrow> bool" where
  "sameStats s t = (copied s = copied t \<and> skipped s = skipped t \<and> merged s = merged t
                     \<and> archOnly s = archOnly t \<and> unmatched s = unmatched t)"

lemma ingest_stats:
  "foldl (ingestStep cfg e) (Inr st) fs = Inr st' \<Longrightarrow> sameStats st' st"
proof (induction fs arbitrary: st)
  case Nil
  then show ?case by (simp add: sameStats_def)
next
  case (Cons f fs)
  show ?case
  proof (cases "ingestStep cfg e (Inr st) f")
    case (Inl err)
    with Cons.prems show ?thesis by (simp add: ingest_Inl)
  next
    case (Inr st1)
    then have "sameStats st1 st"
      by (auto simp: ingestStep_def Let_def sameStats_def split: if_splits sum.splits)
    moreover from Cons.prems Inr have "sameStats st' st1" using Cons.IH [of st1] by simp
    ultimately show ?thesis by (simp add: sameStats_def)
  qed
qed

lemma processGeneral_dry:
  "cfgDryRun cfg \<Longrightarrow> processGeneral cfg e a r st = Inr st' \<Longrightarrow> st' = st"
  by (auto simp: processGeneral_def ingest_dry split: sum.splits option.splits)

lemma processGeneral_tandem:
  assumes "processGeneral (cfg\<lparr>cfgDryRun := False\<rparr>) e a r sL = Inr sL'"
  shows "processGeneral (cfg\<lparr>cfgDryRun := True\<rparr>) e a r sD = Inr sD \<and> sameStats sL' sL"
proof -
  from assms obtain afs sL1 where a: "walkIn (archRoot e) (archTree e) a = Inr afs"
      and i1: "ingest (cfg\<lparr>cfgDryRun := False\<rparr>) e afs sL = Inr sL1"
    by (auto simp: processGeneral_def split: sum.splits)
  have s1: "sameStats sL1 sL" using i1 ingest_stats unfolding ingest_def by blast
  show ?thesis
  proof (cases r)
    case None
    with assms a i1 have "sL' = sL1" by (simp add: processGeneral_def)
    with s1 a None show ?thesis by (simp add: processGeneral_def ingest_dry)
  next
    case (Some rd)
    with assms a i1 obtain rfs where b: "walkIn (resRoot e) (resTree e) rd = Inr rfs"
        and i2: "ingest (cfg\<lparr>cfgDryRun := False\<rparr>) e rfs sL1 = Inr sL'"
      by (auto simp: processGeneral_def split: sum.splits)
    have "sameStats sL' sL1" using i2 ingest_stats unfolding ingest_def by blast
    with s1 have "sameStats sL' sL" by (simp add: sameStats_def)
    with a b Some show ?thesis by (simp add: processGeneral_def ingest_dry)
  qed
qed


lemma dryLive_bump:
  "dryLive sD sL \<Longrightarrow>
   dryLive (sD\<lparr>archOnly := archOnly sD + n, unmatched := unmatched sD @ xs\<rparr>)
           (sL\<lparr>archOnly := archOnly sL + n, unmatched := unmatched sL @ xs\<rparr>)"
  by (simp add: dryLive_def)

lemma dryLive_merged:
  "dryLive sD sL \<Longrightarrow> dryLive (sD\<lparr>merged := merged sD + 1\<rparr>) (sL\<lparr>merged := merged sL + 1\<rparr>)"
  by (simp add: dryLive_def)

lemma mergeCat_tandem:
  assumes r: "dryLive sD sL"
      and l: "mergeCat (cfg\<lparr>cfgDryRun := False\<rparr>) e k d sL = Inr sL'"
  shows "\<exists>sD'. mergeCat (cfg\<lparr>cfgDryRun := True\<rparr>) e k d sD = Inr sD'
            \<and> dryLive sD' sL' \<and> destFiles sD' = destFiles sD"
proof (cases "d = ''Arch_General-Icons''")
  case True
  with l obtain sL1 where p: "processGeneral (cfg\<lparr>cfgDryRun := False\<rparr>) e d (resDirNameOf e k) sL = Inr sL1"
      and s: "sL' = sL1\<lparr>archOnly := archOnly sL1 + 1\<rparr>"
    by (auto simp: mergeCat_def split: sum.splits)
  from processGeneral_tandem [OF p, of sD]
  have g: "processGeneral (cfg\<lparr>cfgDryRun := True\<rparr>) e d (resDirNameOf e k) sD = Inr sD"
      and t: "sameStats sL1 sL" by simp_all
  from g True have "mergeCat (cfg\<lparr>cfgDryRun := True\<rparr>) e k d sD = Inr (sD\<lparr>archOnly := archOnly sD + 1\<rparr>)"
    by (simp add: mergeCat_def)
  moreover have "dryLive (sD\<lparr>archOnly := archOnly sD + 1\<rparr>) sL'"
    using r t by (simp add: s dryLive_def sameStats_def)
  ultimately show ?thesis by simp
next
  case False
  define dstDir where "dstDir = pathJoin (dest e) d"
  define rd where "rd = resDirNameOf e k"
  from l False obtain catKids afs rfs where
      c: "readdir (archTree e) d = Some catKids"
      and a: "walkIn (pathJoin (archRoot e) d) catKids (cfgSize cfg) = Inr afs"
      and b: "(case rd of None \<Rightarrow> Inr [] | Some x \<Rightarrow> walkIn (resRoot e) (resTree e) x) = Inr rfs"
    by (auto simp: mergeCat_def Let_def rd_def split: option.splits sum.splits)
  define n where "n = length (filter (\<lambda>f. \<not> matchesSize cfg (fst f)) rfs)"
  define jobs where "jobs = archJobs cfg dstDir afs @ map (jobFor dstDir) (filter (\<lambda>f. matchesSize cfg (fst f)) rfs)"
  have f: "foldl (resStep cfg dstDir d) (archJobs cfg dstDir afs, st) rfs
      = (jobs, st\<lparr>archOnly := archOnly st + n, unmatched := unmatched st @ replicate n d\<rparr>)" for st
    unfolding jobs_def n_def by (rule resStep_fold)
  have m: "mergeCat (cfg\<lparr>cfgDryRun := x\<rparr>) e k d st =
      Inr (let st2 = runWorkers (cfg\<lparr>cfgDryRun := x\<rparr>) jobs
                       (st\<lparr>archOnly := archOnly st + n, unmatched := unmatched st @ replicate n d\<rparr>)
           in if rd \<noteq> None then st2\<lparr>merged := merged st2 + 1\<rparr> else st2)" for x st
    using False c a b
    by (simp add: mergeCat_def Let_def rd_def [symmetric] dstDir_def [symmetric] f)
  define tD where "tD = runWorkers (cfg\<lparr>cfgDryRun := True\<rparr>) jobs
                       (sD\<lparr>archOnly := archOnly sD + n, unmatched := unmatched sD @ replicate n d\<rparr>)"
  define tL where "tL = runWorkers (cfg\<lparr>cfgDryRun := False\<rparr>) jobs
                       (sL\<lparr>archOnly := archOnly sL + n, unmatched := unmatched sL @ replicate n d\<rparr>)"
  have t: "dryLive tD tL"
    unfolding tD_def tL_def by (intro runWorkers_tandem dryLive_bump r)
  have fl: "destFiles tD = destFiles sD"
    unfolding tD_def by (simp add: runWorkers_dry_files)
  from l have sl: "sL' = (if rd \<noteq> None then tL\<lparr>merged := merged tL + 1\<rparr> else tL)"
    unfolding m tL_def by (simp add: Let_def)
  have sd: "mergeCat (cfg\<lparr>cfgDryRun := True\<rparr>) e k d sD
      = Inr (if rd \<noteq> None then tD\<lparr>merged := merged tD + 1\<rparr> else tD)"
    unfolding m tD_def by (simp add: Let_def)
  have "dryLive (if rd \<noteq> None then tD\<lparr>merged := merged tD + 1\<rparr> else tD) sL'"
    unfolding sl using t by (auto simp: dryLive_def)
  moreover have "destFiles (if rd \<noteq> None then tD\<lparr>merged := merged tD + 1\<rparr> else tD) = destFiles sD"
    using fl by simp
  ultimately show ?thesis using sd by blast
qed

lemma mergeStep_Inr: "mergeStep cfg e (Inr st) c = mergeCat cfg e (fst c) (snd c) st"
  by (simp add: mergeStep_def)

lemma mergeStep_Inl1: "mergeStep cfg e (Inl err) c = Inl err"
  by (simp add: mergeStep_def)

lemma mergeStep_Inl: "foldl (mergeStep cfg e) (Inl err) cats = Inl err"
  by (induction cats) (simp_all add: mergeStep_Inl1)

lemma mergeFold_tandem:
  assumes "dryLive sD sL"
      and "foldl (mergeStep (cfg\<lparr>cfgDryRun := False\<rparr>) e) (Inr sL) cats = Inr sL'"
  shows "\<exists>sD'. foldl (mergeStep (cfg\<lparr>cfgDryRun := True\<rparr>) e) (Inr sD) cats = Inr sD'
            \<and> dryLive sD' sL' \<and> destFiles sD' = destFiles sD"
  using assms
proof (induction cats arbitrary: sD sL)
  case Nil
  then show ?case by simp
next
  case (Cons c cats)
  show ?case
  proof (cases "mergeCat (cfg\<lparr>cfgDryRun := False\<rparr>) e (fst c) (snd c) sL")
    case (Inl err)
    with Cons.prems(2) show ?thesis by (simp add: mergeStep_Inr mergeStep_Inl)
  next
    case (Inr sL1)
    from mergeCat_tandem [OF Cons.prems(1) Inr] obtain sD1 where
        d: "mergeCat (cfg\<lparr>cfgDryRun := True\<rparr>) e (fst c) (snd c) sD = Inr sD1"
        and r: "dryLive sD1 sL1" and f: "destFiles sD1 = destFiles sD"
      by blast
    from Cons.prems(2) Inr have "foldl (mergeStep (cfg\<lparr>cfgDryRun := False\<rparr>) e) (Inr sL1) cats = Inr sL'"
      by (simp add: mergeStep_Inr)
    from Cons.IH [OF r this] obtain sD' where
        "foldl (mergeStep (cfg\<lparr>cfgDryRun := True\<rparr>) e) (Inr sD1) cats = Inr sD'"
        "dryLive sD' sL'" "destFiles sD' = destFiles sD1"
      by blast
    with d f show ?thesis by (simp add: mergeStep_Inr)
  qed
qed

text \<open>
  Claim C6 (a dry run is equivalent to a live run), as amended. Whenever the live merge
  loop completes, the dry run of the same trees and configuration completes as well; it
  writes no file to the destination and gives the same counts of merged and
  architecture-only categories and the same unmatched list. It counts every job as
  copied and none as skipped, so its copied count is the sum of the copied and the
  skipped count of the live run: all statistics agree exactly when the live run skipped
  nothing.
\<close>

theorem dry_run_statistics:
  assumes "mergeAll (cfg\<lparr>cfgDryRun := False\<rparr>) e fs = Inr sL"
  shows "\<exists>sD. mergeAll (cfg\<lparr>cfgDryRun := True\<rparr>) e fs = Inr sD
           \<and> destFiles sD = fs
           \<and> merged sD = merged sL \<and> archOnly sD = archOnly sL \<and> unmatched sD = unmatched sL
           \<and> copied sD = copied sL + skipped sL \<and> skipped sD = 0
           \<and> (statsOf (Inr sD) = statsOf (Inr sL) \<longleftrightarrow> skipped sL = 0)"
proof -
  have "dryLive (initState fs) (initState fs)" by (simp add: dryLive_def initState_def)
  from mergeFold_tandem [OF this, of cfg e "archCats e" sL] assms
  obtain sD where "foldl (mergeStep (cfg\<lparr>cfgDryRun := True\<rparr>) e) (Inr (initState fs)) (archCats e) = Inr sD"
      "dryLive sD sL" "destFiles sD = destFiles (initState fs)"
    unfolding mergeAll_def by blast
  then show ?thesis by (auto simp: mergeAll_def dryLive_def initState_def statsOf_def)
qed

theorem dry_run_statistics_witness:
  "mergeAll (cfg48\<lparr>cfgDryRun := False\<rparr>) env2 [] =
     Inr \<lparr>copied = 1, skipped = 1, merged = 1, archOnly = 0, unmatched = [],
          destFiles = [(''/out/Arch_Compute/EC2_48.svg'', ''arch'')]\<rparr> \<and>
   mergeAll (cfg48\<lparr>cfgDryRun := True\<rparr>) env2 [] =
     Inr \<lparr>copied = 2, skipped = 0, merged = 1, archOnly = 0, unmatched = [], destFiles = []\<rparr>"
proof -
  have l: "mergeAll (cfg48\<lparr>cfgDryRun := False\<rparr>) env2 [] =
     Inr \<lparr>copied = 1, skipped = 1, merged = 1, archOnly = 0, unmatched = [],
          destFiles = [(''/out/Arch_Compute/EC2_48.svg'', ''arch'')]\<rparr>"
    by code_simp
  from dry_run_statistics [OF l] obtain sD where
      d: "mergeAll (cfg48\<lparr>cfgDryRun := True\<rparr>) env2 [] = Inr sD" and
      v: "destFiles sD = []" "merged sD = 1" "archOnly sD = 0" "unmatched sD = []"
         "copied sD = 2" "skipped sD = 0"
    by auto
  from v have "sD = \<lparr>copied = 2, skipped = 0, merged = 1, archOnly = 0, unmatched = [], destFiles = []\<rparr>"
    by (cases sD) simp
  with d l show ?thesis by simp
qed

text \<open>
  The claim as it is written fails on a clean destination when two jobs of a category
  have the same destination: the architecture file and the resource file are both named
  \<open>EC2_48.svg\<close>; the live run copies one and skips the other, the dry run counts two
  copies.
\<close>

theorem dry_run_statistics_counterexample:
  "statsOf (mergeAll (cfg48\<lparr>cfgDryRun := True\<rparr>) env2 []) = Some (2, 0, 1, 0, []) \<and>
   statsOf (mergeAll (cfg48\<lparr>cfgDryRun := False\<rparr>) env2 []) = Some (1, 1, 1, 0, [])"
  by code_simp

section \<open>Renamer: the walk of rename.js\<close>

text \<open>
  What a call of \<open>renameSafe\<close> does: nothing (the name is clean), only a log line (dry
  run), a warning (the new name exists), or the rename.
\<close>

datatype outcome = Same | DryLogged | SkippedExists | Renamed

text \<open>A call \<open>renameSafe(parent, oldName, newName)\<close>, for a directory or for a file.\<close>

record call =
  parentDir :: string
  oldName :: string
  newName :: string
  onDir :: bool
  did :: outcome

text \<open>
  \<open>fsc.existsSync(path.join(parent, newName))\<close> against the current entries of the
  parent; the empty name and \<open>.\<close> join to the parent itself and \<open>..\<close> to its parent,
  which exist.
\<close>

definition existsIn :: "(string \<times> node) list \<Rightarrow> string \<Rightarrow> bool" where
  "existsIn cur n = (n \<in> fst ` set cur \<or> n = [] \<or> n = ''.'' \<or> n = ''..'')"

text \<open>\<open>fs.rename\<close> inside one directory, and the new content of a subdirectory.\<close>

definition renameEntry :: "string \<Rightarrow> string \<Rightarrow> (string \<times> node) list \<Rightarrow> (string \<times> node) list" where
  "renameEntry old new cur = map (\<lambda>(n, nd). if n = old then (new, nd) else (n, nd)) cur"

definition setNode :: "string \<Rightarrow> node \<Rightarrow> (string \<times> node) list \<Rightarrow> (string \<times> node) list" where
  "setNode name nd cur = map (\<lambda>(n, x). if n = name then (n, nd) else (n, x)) cur"

text \<open>
  \<open>renameSafe\<close> on the current entries of \<open>parent\<close>. For entry names, the joined paths
  \<open>src\<close> and \<open>dst\<close> are equal exactly when the names are.
\<close>

definition renameSafe ::
  "opts \<Rightarrow> string \<Rightarrow> string \<Rightarrow> string \<Rightarrow> bool \<Rightarrow> (string \<times> node) list \<Rightarrow> (string \<times> node) list \<times> call" where
  "renameSafe cfg parent old new d cur =
     (let c = \<lparr>parentDir = parent, oldName = old, newName = new, onDir = d, did = Same\<rparr> in
      if old = new then (cur, c)
      else if dryRun cfg then (cur, c\<lparr>did := DryLogged\<rparr>)
      else if existsIn cur new then (cur, c\<lparr>did := SkippedExists\<rparr>)
      else (renameEntry old new cur, c\<lparr>did := Renamed\<rparr>))"

text \<open>
  The loop of \<open>processDir(dir)\<close> over the entries that \<open>readdir\<close> returned (third
  argument), with the current entries of the directory (fourth argument). A
  subdirectory is walked first, then renamed. The walk of a subdirectory starts from
  its content in the listing: entry names are distinct and a rename never replaces an
  entry, so no earlier round has touched it.
\<close>

fun renameLoop ::
  "opts \<Rightarrow> string \<Rightarrow> (string \<times> node) list \<Rightarrow> (string \<times> node) list \<Rightarrow> (string \<times> node) list \<times> call list" where
  "renameLoop cfg dir [] cur = (cur, [])"
| "renameLoop cfg dir ((name, File c) # es) cur =
     (let r1 = renameSafe cfg dir name (cleanName name True) False cur;
          r2 = renameLoop cfg dir es (fst r1)
      in (fst r2, snd r1 # snd r2))"
| "renameLoop cfg dir ((name, Dir kids) # es) cur =
     (let r0 = renameLoop cfg (pathJoin dir name) kids kids;
          r1 = renameSafe cfg dir name (cleanName name False) True (setNode name (Dir (fst r0)) cur);
          r2 = renameLoop cfg dir es (fst r1)
      in (fst r2, snd r0 @ snd r1 # snd r2))"

definition processDir :: "opts \<Rightarrow> string \<Rightarrow> (string \<times> node) list \<Rightarrow> (string \<times> node) list \<times> call list" where
  "processDir cfg dir entries = renameLoop cfg dir entries entries"

text \<open>
  A listing as a file system gives it: no name contains a slash, and the names of one
  directory are distinct.
\<close>

fun wfEntries :: "(string \<times> node) list \<Rightarrow> bool" where
  "wfEntries [] = True"
| "wfEntries ((n, File c) # es) = (CHR ''/'' \<notin> set n \<and> n \<notin> fst ` set es \<and> wfEntries es)"
| "wfEntries ((n, Dir kids) # es) =
     (CHR ''/'' \<notin> set n \<and> n \<notin> fst ` set es \<and> wfEntries kids \<and> wfEntries es)"

text \<open>Every entry of the tree with the path of its directory.\<close>

fun allEntries :: "string \<Rightarrow> (string \<times> node) list \<Rightarrow> (string \<times> string \<times> bool) list" where
  "allEntries dir [] = []"
| "allEntries dir ((n, File c) # es) = (dir, n, False) # allEntries dir es"
| "allEntries dir ((n, Dir kids) # es) =
     (dir, n, True) # allEntries (pathJoin dir n) kids @ allEntries dir es"

text \<open>The path \<open>q\<close> is \<open>p\<close> or lies below \<open>p\<close>.\<close>

definition beneath :: "string \<Rightarrow> string \<Rightarrow> bool" where
  "beneath p q = prefix (splitOn (CHR ''/'') p) (splitOn (CHR ''/'') q)"

definition callKey :: "call \<Rightarrow> string \<times> string \<times> bool" where
  "callKey c = (parentDir c, oldName c, onDir c)"

definition tree1 :: "(string \<times> node) list" where
  "tree1 = [(''Arch_Compute'', Dir [(''Amazon-EC2_48.svg'', File ''a''), (''EC2_48.svg'', File ''b''),
                                     (''sub_32'', Dir [(''AWS-x.svg'', File ''c'')])]),
            (''checksum.txt'', File ''d'')]"

section \<open>Renamer: children before parents\<close>

fun postorder :: "string \<Rightarrow> (string \<times> node) list \<Rightarrow> (string \<times> string \<times> bool) list" where
  "postorder dir [] = []"
| "postorder dir ((n, File c) # es) = (dir, n, False) # postorder dir es"
| "postorder dir ((n, Dir kids) # es) =
     postorder (pathJoin dir n) kids @ (dir, n, True) # postorder dir es"

fun postC :: "string list \<Rightarrow> (string \<times> node) list \<Rightarrow> (string list \<times> string \<times> bool) list" where
  "postC d [] = []"
| "postC d ((n, File c) # es) = (d, n, False) # postC d es"
| "postC d ((n, Dir kids) # es) = postC (d @ [n]) kids @ (d, n, True) # postC d es"

definition notInside :: "string list \<times> string \<times> bool \<Rightarrow> string list \<times> string \<times> bool \<Rightarrow> bool" where
  "notInside x y = (\<not> (snd (snd x) \<and> prefix (fst x @ [fst (snd x)]) (fst y)))"

lemma renameSafe_key: "callKey (snd (renameSafe cfg parent old new d cur)) = (parent, old, d)"
  by (simp add: renameSafe_def callKey_def Let_def)

lemma renameLoop_keys: "map callKey (snd (renameLoop cfg dir snap cur)) = postorder dir snap"
  by (induction cfg dir snap cur rule: renameLoop.induct) (simp_all add: Let_def renameSafe_key)

lemma postorder_mset: "mset (postorder dir kids) = mset (allEntries dir kids)"
  by (induction dir kids rule: postorder.induct) simp_all

lemma postC_below: "x \<in> set (postC d kids) \<Longrightarrow> prefix d (fst x)"
proof (induction d kids rule: postC.induct)
  case (1 d)
  then show ?case by simp
next
  case (2 d n c es)
  then show ?case by auto
next
  case (3 d n kids es)
  from "3.prems" consider "x \<in> set (postC (d @ [n]) kids)" | "x = (d, n, True)" | "x \<in> set (postC d es)"
    by auto
  then show ?case
  proof cases
    case 1
    then have "prefix (d @ [n]) (fst x)" by (rule "3.IH"(1))
    then show ?thesis by (rule append_prefixD)
  next
    case 2
    then show ?thesis by simp
  next
    case 3
    then show ?thesis by (rule "3.IH"(2))
  qed
qed

lemma postC_loc:
  "x \<in> set (postC d kids) \<Longrightarrow>
   fst x = d \<or> (\<exists>y \<in> fst ` set kids. prefix (d @ [y]) (fst x))"
proof (induction d kids rule: postC.induct)
  case (1 d)
  then show ?case by simp
next
  case (2 d n c es)
  then show ?case by auto
next
  case (3 d n kids es)
  from "3.prems" consider "x \<in> set (postC (d @ [n]) kids)" | "x = (d, n, True)" | "x \<in> set (postC d es)"
    by auto
  then show ?case
  proof cases
    case 1
    then have "prefix (d @ [n]) (fst x)" by (rule postC_below)
    then show ?thesis by auto
  next
    case 2
    then show ?thesis by simp
  next
    case 3
    from "3.IH"(2) [OF this] show ?thesis by auto
  qed
qed

lemma prefix_snoc_same:
  assumes "prefix (d @ [x]) q" and "prefix (d @ [y]) q"
  shows "x = y"
proof -
  from assms(1) obtain a where "q = (d @ [x]) @ a" by (rule prefixE)
  moreover from assms(2) obtain b where "q = (d @ [y]) @ b" by (rule prefixE)
  ultimately have "d @ x # a = d @ y # b" by simp
  then show ?thesis by simp
qed

lemma prefix_snoc_self: "\<not> prefix (d @ [x]) d"
proof
  assume "prefix (d @ [x]) d"
  then have "length (d @ [x]) \<le> length d" by (rule prefix_length_le)
  then show False by simp
qed

lemma prefix_deeper:
  assumes "prefix (d @ [x]) p"
  shows "\<not> prefix (p @ [n]) d"
proof
  assume "prefix (p @ [n]) d"
  then have "length (p @ [n]) \<le> length d" by (rule prefix_length_le)
  moreover from assms have "length (d @ [x]) \<le> length p" by (rule prefix_length_le)
  ultimately show False by simp
qed

lemma outside_sibling:
  assumes "b \<in> set (postC d es)" and "x \<notin> fst ` set es"
  shows "\<not> prefix (d @ [x]) (fst b)"
proof
  assume p: "prefix (d @ [x]) (fst b)"
  from postC_loc [OF assms(1)] show False
  proof
    assume "fst b = d"
    with p have "prefix (d @ [x]) d" by (simp only:)
    then show False by (rule notE [OF prefix_snoc_self])
  next
    assume "\<exists>y \<in> fst ` set es. prefix (d @ [y]) (fst b)"
    then obtain y where y: "y \<in> fst ` set es" and q: "prefix (d @ [y]) (fst b)" by (rule bexE)
    from p q have "x = y" by (rule prefix_snoc_same)
    with y assms(2) show False by simp
  qed
qed

lemma postC_sorted: "wfEntries kids \<Longrightarrow> sorted_wrt notInside (postC d kids)"
proof (induction d kids rule: postC.induct)
  case (1 d)
  show ?case by simp
next
  case (2 d n c es)
  then show ?case by (simp add: notInside_def)
next
  case (3 d n kids es)
  from "3.prems" have w: "n \<notin> fst ` set es" "wfEntries kids" "wfEntries es" by simp_all
  have A: "sorted_wrt notInside (postC (d @ [n]) kids)" using "3.IH"(1) w by simp
  have B: "sorted_wrt notInside (postC d es)" using "3.IH"(2) w by simp
  have zB: "\<forall>b \<in> set (postC d es). notInside (d, n, True) b"
    using outside_sibling [OF _ w(1)] by (simp add: notInside_def)
  have Az: "\<forall>a \<in> set (postC (d @ [n]) kids). notInside a (d, n, True)"
  proof
    fix a assume "a \<in> set (postC (d @ [n]) kids)"
    then have "prefix (d @ [n]) (fst a)" by (rule postC_below)
    then show "notInside a (d, n, True)" by (simp add: notInside_def prefix_deeper)
  qed
  have AB: "\<forall>a \<in> set (postC (d @ [n]) kids). \<forall>b \<in> set (postC d es). notInside a b"
  proof (intro ballI)
    fix a b assume a: "a \<in> set (postC (d @ [n]) kids)" and b: "b \<in> set (postC d es)"
    have pa: "prefix (d @ [n]) (fst a)" using a by (rule postC_below)
    have "\<not> prefix (fst a @ [fst (snd a)]) (fst b)"
    proof
      assume "prefix (fst a @ [fst (snd a)]) (fst b)"
      then have "prefix (fst a) (fst b)" by (rule append_prefixD)
      with pa have "prefix (d @ [n]) (fst b)" by (rule prefix_order.trans)
      with outside_sibling [OF b w(1)] show False by simp
    qed
    then show "notInside a b" by (simp add: notInside_def)
  qed
  show ?case using A B zB Az AB by (simp add: sorted_wrt_append)
qed

lemma postorder_names:
  "wfEntries kids \<Longrightarrow> (p, n, b) \<in> set (postorder dir kids) \<Longrightarrow> CHR ''/'' \<notin> set n"
  by (induction dir kids rule: postorder.induct) auto

lemma splitOn_pathJoin:
  "CHR ''/'' \<notin> set n \<Longrightarrow> splitOn (CHR ''/'') (pathJoin d n) = splitOn (CHR ''/'') d @ [n]"
  by (simp add: pathJoin_def splitOn_append splitOn_no_sep)

definition toC :: "string \<times> string \<times> bool \<Rightarrow> string list \<times> string \<times> bool" where
  "toC x = (splitOn (CHR ''/'') (fst x), snd x)"

lemma postorder_postC:
  "wfEntries kids \<Longrightarrow> map toC (postorder dir kids) = postC (splitOn (CHR ''/'') dir) kids"
  by (induction dir kids rule: postorder.induct) (simp_all add: toC_def splitOn_pathJoin)

definition childFirst :: "call \<Rightarrow> call \<Rightarrow> bool" where
  "childFirst x y = (\<not> (onDir x \<and> beneath (pathJoin (parentDir x) (oldName x)) (parentDir y)))"

lemma processDir_sorted:
  assumes "wfEntries kids"
  shows "sorted_wrt childFirst (snd (processDir cfg dir kids))"
proof -
  define tr where "tr = snd (processDir cfg dir kids)"
  have k: "map callKey tr = postorder dir kids"
    unfolding tr_def processDir_def by (rule renameLoop_keys)
  have "sorted_wrt notInside (map toC (map callKey tr))"
    unfolding k postorder_postC [OF assms] using assms by (rule postC_sorted)
  then have s: "sorted_wrt (\<lambda>x y. notInside (toC (callKey x)) (toC (callKey y))) tr"
    by (simp add: sorted_wrt_map)
  have "sorted_wrt childFirst tr"
  proof (rule sorted_wrt_mono_rel [OF _ s])
    fix x y assume x: "x \<in> set tr" and "y \<in> set tr"
      and n: "notInside (toC (callKey x)) (toC (callKey y))"
    from x have "callKey x \<in> set (postorder dir kids)" unfolding k [symmetric] by simp
    then have "CHR ''/'' \<notin> set (oldName x)"
      using postorder_names [OF assms, of "parentDir x" "oldName x" "onDir x" dir]
      by (simp add: callKey_def)
    then have "splitOn (CHR ''/'') (pathJoin (parentDir x) (oldName x))
        = splitOn (CHR ''/'') (parentDir x) @ [oldName x]"
      by (rule splitOn_pathJoin)
    with n show "childFirst x y"
      by (simp add: childFirst_def notInside_def toC_def callKey_def beneath_def)
  qed
  then show ?thesis unfolding tr_def .
qed

text \<open>
  Claim C9 (order of the Renamer): the calls of \<open>renameSafe\<close> are the entries of the
  tree, each once; and when a call handles a directory, every call for an entry in that
  directory or below it comes earlier in the run. So a directory is renamed only after
  everything beneath it has been processed.
\<close>

theorem processDir_children_first:
  assumes "wfEntries entries"
  shows "mset (map callKey (snd (processDir cfg dir entries))) = mset (allEntries dir entries)
       \<and> (\<forall>i j. i < length (snd (processDir cfg dir entries))
              \<and> j < length (snd (processDir cfg dir entries))
              \<and> onDir (snd (processDir cfg dir entries) ! i)
              \<and> beneath (pathJoin (parentDir (snd (processDir cfg dir entries) ! i))
                                   (oldName (snd (processDir cfg dir entries) ! i)))
                         (parentDir (snd (processDir cfg dir entries) ! j))
            \<longrightarrow> j < i)"
proof -
  define tr where "tr = snd (processDir cfg dir entries)"
  have m: "mset (map callKey tr) = mset (allEntries dir entries)"
    unfolding tr_def processDir_def renameLoop_keys by (rule postorder_mset)
  have s: "sorted_wrt childFirst tr" unfolding tr_def using assms by (rule processDir_sorted)
  have o: "j < i" if "i < length tr" "j < length tr" "onDir (tr ! i)"
      "beneath (pathJoin (parentDir (tr ! i)) (oldName (tr ! i))) (parentDir (tr ! j))" for i j
  proof (rule ccontr)
    assume "\<not> j < i"
    then consider "i < j" | "i = j" by linarith
    then show False
    proof cases
      case 1
      with s that(2) have "childFirst (tr ! i) (tr ! j)" by (simp add: sorted_wrt_iff_nth_less)
      with that(3,4) show False by (simp add: childFirst_def)
    next
      case 2
      have "callKey (tr ! i) \<in> set (postorder dir entries)"
        using that(1) renameLoop_keys [of cfg dir entries entries]
        unfolding tr_def processDir_def by (metis length_map nth_map nth_mem)
      then have "CHR ''/'' \<notin> set (oldName (tr ! i))"
        using postorder_names [OF assms, of "parentDir (tr ! i)" "oldName (tr ! i)" "onDir (tr ! i)" dir]
        by (simp add: callKey_def)
      then have "splitOn (CHR ''/'') (pathJoin (parentDir (tr ! i)) (oldName (tr ! i)))
          = splitOn (CHR ''/'') (parentDir (tr ! i)) @ [oldName (tr ! i)]"
        by (rule splitOn_pathJoin)
      with that(4) 2 show False by (simp add: beneath_def prefix_snoc_self)
    qed
  qed
  from m o show ?thesis unfolding tr_def by blast
qed

theorem processDir_children_first_witness:
  "wfEntries tree1 \<and>
   map callKey (snd (processDir live ''/out'' tree1)) =
     [(''/out/Arch_Compute'', ''Amazon-EC2_48.svg'', False),
      (''/out/Arch_Compute'', ''EC2_48.svg'', False),
      (''/out/Arch_Compute/sub_32'', ''AWS-x.svg'', False),
      (''/out/Arch_Compute'', ''sub_32'', True),
      (''/out'', ''Arch_Compute'', True),
      (''/out'', ''checksum.txt'', False)] \<and>
   map did (snd (processDir live ''/out'' tree1)) =
     [Renamed, SkippedExists, Renamed, Renamed, Renamed, Same] \<and>
   mset (map callKey (snd (processDir live ''/out'' tree1))) = mset (allEntries ''/out'' tree1) \<and>
   beneath (pathJoin ''/out'' ''Arch_Compute'') ''/out/Arch_Compute/sub_32'' \<and>
   (2 :: nat) < 4"
proof -
  have w: "wfEntries tree1" by (simp add: tree1_def)
  have k: "map callKey (snd (processDir live ''/out'' tree1)) =
     [(''/out/Arch_Compute'', ''Amazon-EC2_48.svg'', False),
      (''/out/Arch_Compute'', ''EC2_48.svg'', False),
      (''/out/Arch_Compute/sub_32'', ''AWS-x.svg'', False),
      (''/out/Arch_Compute'', ''sub_32'', True),
      (''/out'', ''Arch_Compute'', True),
      (''/out'', ''checksum.txt'', False)]"
    by code_simp
  have d: "map did (snd (processDir live ''/out'' tree1)) =
     [Renamed, SkippedExists, Renamed, Renamed, Renamed, Same]"
    by code_simp
  have l: "length (snd (processDir live ''/out'' tree1)) = 6"
    using arg_cong [OF k, of length] by simp
  have c4: "callKey (snd (processDir live ''/out'' tree1) ! 4) = (''/out'', ''Arch_Compute'', True)"
    using arg_cong [OF k, of "\<lambda>xs. xs ! 4"] l by simp
  have c2: "callKey (snd (processDir live ''/out'' tree1) ! 2) = (''/out/Arch_Compute/sub_32'', ''AWS-x.svg'', False)"
    using arg_cong [OF k, of "\<lambda>xs. xs ! 2"] l by simp
  have b: "beneath (pathJoin ''/out'' ''Arch_Compute'') ''/out/Arch_Compute/sub_32''"
    by code_simp
  note t = processDir_children_first [OF w, of live "''/out''"]
  from t have m: "mset (map callKey (snd (processDir live ''/out'' tree1))) = mset (allEntries ''/out'' tree1)"
    by blast
  from t have "4 < length (snd (processDir live ''/out'' tree1))
              \<and> 2 < length (snd (processDir live ''/out'' tree1))
              \<and> onDir (snd (processDir live ''/out'' tree1) ! 4)
              \<and> beneath (pathJoin (parentDir (snd (processDir live ''/out'' tree1) ! 4))
                                   (oldName (snd (processDir live ''/out'' tree1) ! 4)))
                         (parentDir (snd (processDir live ''/out'' tree1) ! 2))
            \<longrightarrow> (2 :: nat) < 4"
    by blast
  moreover have "onDir (snd (processDir live ''/out'' tree1) ! 4)"
      "parentDir (snd (processDir live ''/out'' tree1) ! 4) = ''/out''"
      "oldName (snd (processDir live ''/out'' tree1) ! 4) = ''Arch_Compute''"
      "parentDir (snd (processDir live ''/out'' tree1) ! 2) = ''/out/Arch_Compute/sub_32''"
    using c4 c2 by (simp_all add: callKey_def)
  ultimately have o: "(2 :: nat) < 4" using l b by simp
  from w k d m b o show ?thesis by blast
qed

end
